theory Spec2Isabelle
  imports Main "HOL-Library.Word" "HOL-Library.Sublist"
begin

section \<open>The reliable-ordered channel of broker/detail/channel.hh\<close>

subsection \<open>Member types\<close>

text \<open>
  \<^verbatim>\<open>using sequence_number_type = uint64_t;\<close> and
  \<^verbatim>\<open>using tick_interval_type = uint16_t;\<close>. Unsigned arithmetic of C++ wraps
  around, as the arithmetic of \<open>'a word\<close> does.
\<close>

type_synonym sequence_number_type = "64 word"

type_synonym tick_interval_type = "16 word"

text \<open>
  Modelled from the spec: \<^verbatim>\<open>alm::lamport_timestamp\<close> (broker/alm/lamport_timestamp.hh
  is not among the sources). The spec calls it "an unsigned monotonic counter local to
  each participant, incremented once per tick invocation"; channel.hh says "Lamport
  timestamps start at 1" and reads its 64-bit \<^verbatim>\<open>value\<close> member. A timestamp is its value;
  a default-constructed timestamp is 1, \<^verbatim>\<open>++\<close> adds one and \<^verbatim>\<open>+\<close> adds an unsigned
  integer to the value.
\<close>

type_synonym lamport_timestamp = "64 word"

definition lamport_timestamp_init :: lamport_timestamp where
  "lamport_timestamp_init = 1"

text \<open>Messages from consumers to the producer.\<close>

datatype consumer_message =
    cumulative_ack sequence_number_type
  | nack "sequence_number_type list"

text \<open>Messages from the producer to consumers; \<^verbatim>\<open>struct event\<close> is a message of its own.\<close>

datatype 'p event = event (ev_seq: sequence_number_type) (ev_content: 'p)

datatype 'p producer_message =
    handshake sequence_number_type tick_interval_type
  | event_msg "'p event"
  | retransmit_failed sequence_number_type
  | heartbeat sequence_number_type

subsection \<open>The consumer\<close>

text \<open>
  The backend of a consumer is a pointer to an object with the member functions
  \<^verbatim>\<open>consume\<close>, \<^verbatim>\<open>consume_nil\<close>, \<^verbatim>\<open>send\<close> and \<^verbatim>\<open>close\<close>. The model records
  every call on the backend, in order, in the field \<open>c_out\<close> of the consumer, each
  with the value that \<^verbatim>\<open>next_seq_\<close> has when the call is made (the backend receives
  \<^verbatim>\<open>this\<close>). The one call whose result the consumer reads is \<^verbatim>\<open>consume_nil\<close>: its
  answer is a parameter \<open>nil\<close> of the operations, a function of the consumer as it is at
  the call, with \<open>None\<close> for a default \<^verbatim>\<open>error\<close>.
\<close>

datatype ('p, 'e) consumer_call =
    consume 'p
  | consume_nil
  | send_c consumer_message
  | close 'e

datatype 'p optional_event =
  optional_event (oe_seq: sequence_number_type) (oe_content: "'p option")

record ('p, 'e) consumer =
  c_next_seq :: sequence_number_type
  c_last_seq :: sequence_number_type
  c_buf :: "'p optional_event list"
  c_tick :: lamport_timestamp
  c_last_tick_seq :: sequence_number_type
  c_idle_ticks :: "8 word"
  c_heartbeat_interval :: "8 word"
  c_nack_timeout :: "8 word"
  c_out :: "(sequence_number_type \<times> ('p, 'e) consumer_call) list"

type_synonym ('p, 'e) nil_policy = "('p, 'e) consumer \<Rightarrow> 'e option"

definition consumer_init :: "('p, 'e) consumer" where
  "consumer_init =
     \<lparr> c_next_seq = 0, c_last_seq = 0, c_buf = [], c_tick = lamport_timestamp_init,
       c_last_tick_seq = 0, c_idle_ticks = 0, c_heartbeat_interval = 0,
       c_nack_timeout = 5, c_out = [] \<rparr>"

definition c_call :: "('p, 'e) consumer_call \<Rightarrow> ('p, 'e) consumer \<Rightarrow> ('p, 'e) consumer" where
  "c_call x c = c\<lparr>c_out := c_out c @ [(c_next_seq c, x)]\<rparr>"

text \<open>
  The backend contract: after \<^verbatim>\<open>close\<close>, "no further function calls on the consumer
  are allowed".
\<close>

fun is_close :: "('p, 'e) consumer_call \<Rightarrow> bool" where
  "is_close (close e) = True"
| "is_close _ = False"

definition closed :: "('p, 'e) consumer \<Rightarrow> bool" where
  "closed c = list_ex (\<lambda>x. is_close (snd x)) (c_out c)"

text \<open>\<^verbatim>\<open>if (++next_seq_ > last_seq_) last_seq_ = next_seq_;\<close>\<close>

definition bump_seq :: "('p, 'e) consumer \<Rightarrow> ('p, 'e) consumer" where
  "bump_seq c =
     (let c1 = c\<lparr>c_next_seq := c_next_seq c + 1\<rparr>
      in if c_next_seq c1 > c_last_seq c1 then c1\<lparr>c_last_seq := c_next_seq c1\<rparr> else c1)"

text \<open>
  The loop of \<^verbatim>\<open>try_consume_buffer\<close>: the iterator \<^verbatim>\<open>i\<close> walks over \<^verbatim>\<open>buf_\<close>, which
  stays as it is until the loop is left. The result is the part of the buffer from
  \<^verbatim>\<open>i\<close> on, the error of \<^verbatim>\<open>consume_nil\<close> if there was one, and the consumer.
\<close>

fun consume_loop ::
  "('p, 'e) nil_policy \<Rightarrow> 'p optional_event list \<Rightarrow> ('p, 'e) consumer \<Rightarrow>
   'p optional_event list \<times> 'e option \<times> ('p, 'e) consumer" where
  "consume_loop nil [] c = ([], None, c)"
| "consume_loop nil (x # xs) c =
     (if oe_seq x = c_next_seq c then
        (case oe_content x of
           Some pl \<Rightarrow> consume_loop nil xs (bump_seq (c_call (consume pl) c))
         | None \<Rightarrow>
             (case nil c of
                Some err \<Rightarrow> (x # xs, Some err, c_call consume_nil c)
              | None \<Rightarrow> consume_loop nil xs (bump_seq (c_call consume_nil c))))
      else (x # xs, None, c))"

definition try_consume_buffer :: "('p, 'e) nil_policy \<Rightarrow> ('p, 'e) consumer \<Rightarrow> ('p, 'e) consumer" where
  "try_consume_buffer nil c =
     (case consume_loop nil (c_buf c) c of
        (rest, Some err, c1) \<Rightarrow> c_call (close err) (c1\<lparr>c_buf := rest\<rparr>)
      | (rest, None, c1) \<Rightarrow> c1\<lparr>c_buf := rest\<rparr>)"

text \<open>
  \<^verbatim>\<open>heartbeat_interval_\<close> of the consumer is a \<^verbatim>\<open>uint8_t\<close>; the assignment from the
  16-bit parameter truncates. The parameter \<^verbatim>\<open>offset\<close> is \<open>off\<close> here.
\<close>

definition handle_handshake ::
  "('p, 'e) nil_policy \<Rightarrow> sequence_number_type \<Rightarrow> tick_interval_type \<Rightarrow>
   ('p, 'e) consumer \<Rightarrow> ('p, 'e) consumer" where
  "handle_handshake nil off hb c =
     (if off \<ge> c_next_seq c then
        try_consume_buffer nil
          (c\<lparr>c_next_seq := off + 1, c_last_seq := off + 1,
             c_heartbeat_interval := ucast hb\<rparr>)
      else c)"

definition handle_heartbeat :: "sequence_number_type \<Rightarrow> ('p, 'e) consumer \<Rightarrow> ('p, 'e) consumer" where
  "handle_heartbeat s c =
     (if c_last_seq c = 0 \<or> s = 0 then c
      else if s + 1 > c_last_seq c then c\<lparr>c_last_seq := s + 1\<rparr>
      else c)"

text \<open>
  The insertion of \<^verbatim>\<open>handle_event\<close>: \<^verbatim>\<open>find_if\<close> stops at the first slot with
  \<^verbatim>\<open>x.seq >= seq\<close>; at the end the event is appended, before a slot of another sequence
  number it is inserted, a slot of the same number is filled only if it has no content.
\<close>

fun insert_event :: "sequence_number_type \<Rightarrow> 'p \<Rightarrow> 'p optional_event list \<Rightarrow> 'p optional_event list" where
  "insert_event s pl [] = [optional_event s (Some pl)]"
| "insert_event s pl (x # xs) =
     (if oe_seq x \<ge> s then
        (if oe_seq x \<noteq> s then optional_event s (Some pl) # x # xs
         else if oe_content x = None then optional_event s (Some pl) # xs
         else x # xs)
      else x # insert_event s pl xs)"

definition handle_event ::
  "('p, 'e) nil_policy \<Rightarrow> sequence_number_type \<Rightarrow> 'p \<Rightarrow> ('p, 'e) consumer \<Rightarrow> ('p, 'e) consumer" where
  "handle_event nil s pl c =
     (if c_next_seq c = s then
        try_consume_buffer nil (bump_seq (c_call (consume pl) c))
      else if s > c_next_seq c then
        (let c1 = (if s > c_last_seq c then c\<lparr>c_last_seq := s\<rparr> else c)
         in c1\<lparr>c_buf := insert_event s pl (c_buf c1)\<rparr>)
      else c)"

fun insert_nil :: "sequence_number_type \<Rightarrow> 'p optional_event list \<Rightarrow> 'p optional_event list" where
  "insert_nil s [] = [optional_event s None]"
| "insert_nil s (x # xs) =
     (if oe_seq x \<ge> s then
        (if oe_seq x \<noteq> s then optional_event s None # x # xs else x # xs)
      else x # insert_nil s xs)"

definition handle_retransmit_failed ::
  "('p, 'e) nil_policy \<Rightarrow> sequence_number_type \<Rightarrow> ('p, 'e) consumer \<Rightarrow> ('p, 'e) consumer" where
  "handle_retransmit_failed nil s c =
     (if c_next_seq c = s then
        (case nil c of
           Some err \<Rightarrow> c_call (close err) (c_call consume_nil c)
         | None \<Rightarrow> try_consume_buffer nil (bump_seq (c_call consume_nil c)))
      else if s > c_next_seq c then c\<lparr>c_buf := insert_nil s (c_buf c)\<rparr>
      else c)"

text \<open>\<^verbatim>\<open>num_ticks\<close>: "Lamport timestamps start at 1."\<close>

definition num_ticks :: "('p, 'e) consumer \<Rightarrow> 64 word" where
  "num_ticks c = c_tick c - 1"

definition send_ack :: "('p, 'e) consumer \<Rightarrow> ('p, 'e) consumer" where
  "send_ack c =
     c_call (send_c (cumulative_ack (if c_next_seq c > 0 then c_next_seq c - 1 else 0))) c"

text \<open>
  The lambda \<^verbatim>\<open>generate\<close> of \<^verbatim>\<open>tick\<close> owns the counter \<^verbatim>\<open>i\<close> and appends to
  \<^verbatim>\<open>seqs\<close>: \<^verbatim>\<open>for (; i < found; ++i) seqs.emplace_back(i); ++i;\<close>. The state of the
  lambda is the pair of \<^verbatim>\<open>i\<close> and \<^verbatim>\<open>seqs\<close>.
\<close>

function generate_loop ::
  "sequence_number_type \<Rightarrow> sequence_number_type \<Rightarrow> sequence_number_type list \<Rightarrow>
   sequence_number_type \<times> sequence_number_type list" where
  "generate_loop i found seqs =
     (if i < found then generate_loop (i + 1) found (seqs @ [i]) else (i, seqs))"
  by pat_completeness auto
termination
proof (relation "measure (\<lambda>(i, found, seqs). unat found - unat i)")
  show "wf (measure (\<lambda>(i, found, seqs). unat found - unat i))"
    by simp
next
  fix i found :: sequence_number_type and seqs :: "sequence_number_type list"
  assume lt: "i < found"
  then have "unat i < unat found"
    by (simp add: word_less_nat_alt)
  moreover have "unat found < 2 ^ 64"
    using unsigned_less [of found] by simp
  ultimately have "unat i + 1 < 2 ^ 64"
    by simp
  then have "unat (i + 1) = unat i + 1"
    by (simp add: unat_word_ariths)
  with \<open>unat i < unat found\<close> show "((i + 1, found, seqs @ [i]), (i, found, seqs))
      \<in> measure (\<lambda>(i, found, seqs). unat found - unat i)"
    by simp
qed

definition generate ::
  "sequence_number_type \<Rightarrow> sequence_number_type \<times> sequence_number_type list \<Rightarrow>
   sequence_number_type \<times> sequence_number_type list" where
  "generate found st = (case generate_loop (fst st) found (snd st) of (i, seqs) \<Rightarrow> (i + 1, seqs))"

definition nack_seqs :: "('p, 'e) consumer \<Rightarrow> sequence_number_type list" where
  "nack_seqs c =
     snd (generate (c_last_seq c)
            (fold (\<lambda>x. generate (oe_seq x)) (c_buf c) (c_next_seq c, [])))"

definition c_tick_op :: "('p, 'e) consumer \<Rightarrow> ('p, 'e) consumer" where
  "c_tick_op c =
     (let progressed = (c_next_seq c > c_last_tick_seq c);
          c1 = c\<lparr>c_last_tick_seq := c_next_seq c, c_tick := c_tick c + 1\<rparr>
      in if progressed then
           (let c2 = (if c_idle_ticks c1 > 0 then c1\<lparr>c_idle_ticks := 0\<rparr> else c1)
            in if c_heartbeat_interval c2 > 0
                  \<and> num_ticks c2 mod ucast (c_heartbeat_interval c2) = 0
               then send_ack c2 else c2)
         else
           (let c2 = c1\<lparr>c_idle_ticks := c_idle_ticks c1 + 1\<rparr>
            in if c_next_seq c2 < c_last_seq c2 \<and> c_idle_ticks c2 \<ge> c_nack_timeout c2 then
                 (let c3 = c2\<lparr>c_idle_ticks := 0\<rparr>
                  in c_call (send_c (nack (nack_seqs c3))) c3)
               else if c_heartbeat_interval c2 > 0
                       \<and> num_ticks c2 mod ucast (c_heartbeat_interval c2) = 0
               then send_ack c2 else c2))"

text \<open>
  \<^verbatim>\<open>seqs.reserve(last - first)\<close> throws \<^verbatim>\<open>std::length_error\<close> when \<open>last - first\<close> exceeds
  what the vector accepts (its \<^verbatim>\<open>max_size()\<close>, which the implementation defines: the
  parameter \<open>max_size\<close>). At that point \<^verbatim>\<open>last_tick_seq_\<close>, \<^verbatim>\<open>tick_\<close> and
  \<^verbatim>\<open>idle_ticks_\<close> are assigned and the backend has not been called. \<open>c_tick_op\<close> above is
  the tick that returns; \<open>tick\<close> is \<^verbatim>\<open>tick()\<close> with the exception: \<open>Inl\<close> holds the
  exception and the consumer as the exception leaves it. \<open>sends_nack\<close> is the condition
  under which \<^verbatim>\<open>tick\<close> reaches the branch that builds the NACK.
\<close>

datatype std_exception = length_error

definition sends_nack :: "('p, 'e) consumer \<Rightarrow> bool" where
  "sends_nack c =
     (\<not> c_next_seq c > c_last_tick_seq c \<and> c_next_seq c < c_last_seq c
      \<and> c_idle_ticks c + 1 \<ge> c_nack_timeout c)"

definition tick ::
  "nat \<Rightarrow> ('p, 'e) consumer \<Rightarrow> (std_exception \<times> ('p, 'e) consumer) + ('p, 'e) consumer" where
  "tick max_size c =
     (if sends_nack c \<and> max_size < unat (c_last_seq c - c_next_seq c)
      then Inl (length_error,
                c\<lparr>c_last_tick_seq := c_next_seq c, c_tick := c_tick c + 1, c_idle_ticks := 0\<rparr>)
      else Inr (c_tick_op c))"

text \<open>The consumer after \<^verbatim>\<open>tick()\<close>, whether it returned or threw.\<close>

definition after_tick ::
  "(std_exception \<times> ('p, 'e) consumer) + ('p, 'e) consumer \<Rightarrow> ('p, 'e) consumer" where
  "after_tick r = (case r of Inl (e, c) \<Rightarrow> c | Inr c \<Rightarrow> c)"

subsection \<open>The producer\<close>

text \<open>
  The backend of a producer has \<^verbatim>\<open>send\<close> (unicast to a handle) and \<^verbatim>\<open>broadcast\<close>;
  the model records the calls, in order, in the field \<open>p_out\<close>.
\<close>

datatype ('h, 'p) producer_call =
    send_p 'h "'p producer_message"
  | broadcast "'p producer_message"

record 'h path =
  hdl :: 'h
  offset :: sequence_number_type
  acked :: sequence_number_type
  first_acked :: lamport_timestamp
  last_acked :: lamport_timestamp

record ('h, 'p) producer =
  p_seq :: sequence_number_type
  p_tick :: lamport_timestamp
  p_last_broadcast :: lamport_timestamp
  p_buf :: "'p event list"
  p_paths :: "'h path list"
  p_heartbeat_interval :: tick_interval_type
  p_out :: "('h, 'p) producer_call list"

text \<open>
  The error codes of \<^verbatim>\<open>broker/error.hh\<close> that the channel uses; an \<^verbatim>\<open>error\<close> is
  \<open>None\<close> for \<^verbatim>\<open>nil\<close>.
\<close>

datatype ec = consumer_exists

definition producer_init :: "('h, 'p) producer" where
  "producer_init =
     \<lparr> p_seq = 0, p_tick = lamport_timestamp_init, p_last_broadcast = lamport_timestamp_init,
       p_buf = [], p_paths = [], p_heartbeat_interval = 5, p_out = [] \<rparr>"

definition p_call :: "('h, 'p) producer_call \<Rightarrow> ('h, 'p) producer \<Rightarrow> ('h, 'p) producer" where
  "p_call x p = p\<lparr>p_out := p_out p @ [x]\<rparr>"

definition find_path :: "'h \<Rightarrow> ('h, 'p) producer \<Rightarrow> 'h path option" where
  "find_path h p = find (\<lambda>x. hdl x = h) (p_paths p)"

definition find_event :: "sequence_number_type \<Rightarrow> ('h, 'p) producer \<Rightarrow> 'p event option" where
  "find_event s p = find (\<lambda>x. ev_seq x = s) (p_buf p)"

definition produce :: "'p \<Rightarrow> ('h, 'p) producer \<Rightarrow> ('h, 'p) producer" where
  "produce content p =
     (if p_paths p = [] then p
      else
        (let e = event (p_seq p + 1) content
         in p_call (broadcast (event_msg e))
              (p\<lparr>p_seq := p_seq p + 1, p_buf := p_buf p @ [e],
                 p_last_broadcast := p_tick p\<rparr>)))"

text \<open>
  \<^verbatim>\<open>path{hdl, seq_, seq_}\<close> leaves both timestamps default-constructed. The result is
  the returned \<^verbatim>\<open>error\<close> and the producer.
\<close>

definition add :: "'h \<Rightarrow> ('h, 'p) producer \<Rightarrow> ec option \<times> ('h, 'p) producer" where
  "add h p =
     (if find_path h p \<noteq> None then (Some consumer_exists, p)
      else
        (None,
         p_call (send_p h (handshake (p_seq p) (p_heartbeat_interval p)))
           (p\<lparr>p_paths := p_paths p @
                [\<lparr>hdl = h, offset = p_seq p, acked = p_seq p,
                  first_acked = lamport_timestamp_init,
                  last_acked = lamport_timestamp_init\<rparr>]\<rparr>)))"

text \<open>
  The loop of \<^verbatim>\<open>handle_ack\<close> over \<^verbatim>\<open>paths_\<close>, with the local \<^verbatim>\<open>acked\<close> as
  accumulator. It returns the paths as the loop leaves them and the final \<^verbatim>\<open>acked\<close>,
  or \<open>None\<close> where the function returns from inside the loop.
\<close>

fun ack_loop ::
  "'h \<Rightarrow> sequence_number_type \<Rightarrow> lamport_timestamp \<Rightarrow> 'h path list \<Rightarrow>
   sequence_number_type \<Rightarrow> 'h path list \<times> sequence_number_type option" where
  "ack_loop h s t [] a = ([], Some a)"
| "ack_loop h s t (x # xs) a =
     (if hdl x = h then
        (if acked x > s then (x # xs, None)
         else if acked x = s then (x\<lparr>last_acked := t\<rparr> # xs, None)
         else
           (case ack_loop h s t xs a of
              (ys, r) \<Rightarrow> (x\<lparr>acked := s, first_acked := t, last_acked := t\<rparr> # ys, r)))
      else
        (case ack_loop h s t xs (min (acked x) a) of (ys, r) \<Rightarrow> (x # ys, r)))"

definition handle_ack ::
  "'h \<Rightarrow> sequence_number_type \<Rightarrow> ('h, 'p) producer \<Rightarrow> ('h, 'p) producer" where
  "handle_ack h s p =
     (case ack_loop h s (p_tick p) (p_paths p) s of
        (ps, None) \<Rightarrow> p\<lparr>p_paths := ps\<rparr>
      | (ps, Some a) \<Rightarrow>
          p\<lparr>p_paths := ps, p_buf := dropWhile (\<lambda>x. \<not> ev_seq x > a) (p_buf p)\<rparr>)"

definition retransmit :: "'h \<Rightarrow> sequence_number_type \<Rightarrow> ('h, 'p) producer \<Rightarrow> ('h, 'p) producer" where
  "retransmit h s p =
     (case find_event s p of
        Some e \<Rightarrow> p_call (send_p h (event_msg e)) p
      | None \<Rightarrow> p_call (send_p h (retransmit_failed s)) p)"

definition handle_nack ::
  "'h \<Rightarrow> sequence_number_type list \<Rightarrow> ('h, 'p) producer \<Rightarrow> ('h, 'p) producer" where
  "handle_nack h seqs p =
     (case seqs of
        [] \<Rightarrow> p
      | first # _ \<Rightarrow>
          (case find_path h p of
             None \<Rightarrow> p
           | Some x \<Rightarrow>
               if first = 0
               then p_call (send_p h (handshake (offset x) (p_heartbeat_interval p))) p
               else fold (retransmit h) seqs (handle_ack h (first - 1) p)))"

definition p_tick_op :: "('h, 'p) producer \<Rightarrow> ('h, 'p) producer" where
  "p_tick_op p =
     (let p1 = p\<lparr>p_tick := p_tick p + 1\<rparr>
      in if p_heartbeat_interval p1 > 0
            \<and> p_last_broadcast p1 + ucast (p_heartbeat_interval p1) = p_tick p1
         then p_call (broadcast (heartbeat (p_seq p1))) (p1\<lparr>p_last_broadcast := p_tick p1\<rparr>)
         else p1)"

definition idle :: "('h, 'p) producer \<Rightarrow> bool" where
  "idle p = list_all (\<lambda>x. acked x = p_seq p) (p_paths p)"

definition set_heartbeat_interval ::
  "tick_interval_type \<Rightarrow> ('h, 'p) producer \<Rightarrow> ('h, 'p) producer" where
  "set_heartbeat_interval v p = p\<lparr>p_heartbeat_interval := v\<rparr>"

subsection \<open>Concrete states\<close>

text \<open>
  States and inputs at which the theorems below are evaluated. Payloads and handles are
  natural numbers; \<open>nil_ok\<close> is a backend whose \<^verbatim>\<open>consume_nil\<close> never fails, \<open>nil_fail\<close> one
  whose \<^verbatim>\<open>consume_nil\<close> always fails.
\<close>

definition nil_ok :: "(nat, unit) nil_policy" where
  "nil_ok c = None"

definition nil_fail :: "(nat, unit) nil_policy" where
  "nil_fail c = Some ()"

text \<open>\<^verbatim>\<open>max_size()\<close> of a vector of 64-bit integers where pointers have 64 bits: \<open>2\<^sup>6\<^sup>0 - 1\<close>.\<close>

definition max_size_64 :: nat where
  "max_size_64 = 1152921504606846975"

text \<open>After \<^verbatim>\<open>handle_handshake(0, 5)\<close> and \<^verbatim>\<open>handle_event(5, 7)\<close>: event 5 waits in the buffer.\<close>

definition c_gap :: "(nat, unit) consumer" where
  "c_gap = handle_event nil_ok 5 7 (handle_handshake nil_ok 0 5 consumer_init)"

text \<open>Then \<^verbatim>\<open>handle_event(2, 6)\<close>: the events 2 and 5 wait for event 1.\<close>

definition c_gap2 :: "(nat, unit) consumer" where
  "c_gap2 = handle_event nil_ok 2 6 c_gap"

text \<open>After \<^verbatim>\<open>handle_handshake(18446744073709551614, 5)\<close>: \<^verbatim>\<open>next_seq_\<close> is \<open>2\<^sup>6\<^sup>4 - 1\<close>.\<close>

definition c_edge :: "(nat, unit) consumer" where
  "c_edge = handle_handshake nil_ok 18446744073709551614 5 consumer_init"

text \<open>A producer with the consumers 1 and 2, added before and after two events.\<close>

definition p_two :: "(nat, nat) producer" where
  "p_two = snd (add 2 (produce 11 (produce 10 (snd (add 1 producer_init)))))"

subsection \<open>Runs of a consumer\<close>

text \<open>
  The messages and ticks a consumer can be given, and the consumer after a list of them;
  \<open>msz\<close> is the \<open>max_size\<close> of \<open>tick\<close>.
\<close>

datatype 'p consumer_op =
    op_handshake sequence_number_type tick_interval_type
  | op_heartbeat sequence_number_type
  | op_event sequence_number_type 'p
  | op_retransmit_failed sequence_number_type
  | op_tick

fun consumer_step ::
  "('p, 'e) nil_policy \<Rightarrow> nat \<Rightarrow> 'p consumer_op \<Rightarrow> ('p, 'e) consumer \<Rightarrow> ('p, 'e) consumer" where
  "consumer_step nil msz (op_handshake off hb) c = handle_handshake nil off hb c"
| "consumer_step nil msz (op_heartbeat s) c = handle_heartbeat s c"
| "consumer_step nil msz (op_event s pl) c = handle_event nil s pl c"
| "consumer_step nil msz (op_retransmit_failed s) c = handle_retransmit_failed nil s c"
| "consumer_step nil msz op_tick c = after_tick (tick msz c)"

definition consumer_run ::
  "('p, 'e) nil_policy \<Rightarrow> nat \<Rightarrow> 'p consumer_op list \<Rightarrow> ('p, 'e) consumer \<Rightarrow> ('p, 'e) consumer" where
  "consumer_run nil msz ops c = fold (consumer_step nil msz) ops c"

text \<open>
  A handshake is \<^emph>\<open>fresh\<close> for a consumer when it is ignored or its offset is below every
  sequence number of the buffer: no buffered slot is older than the handshake.
\<close>

fun fresh_handshake :: "'p consumer_op \<Rightarrow> ('p, 'e) consumer \<Rightarrow> bool" where
  "fresh_handshake (op_handshake off hb) c =
     (off < c_next_seq c \<or> list_all (\<lambda>x. off < oe_seq x) (c_buf c))"
| "fresh_handshake _ c = True"

text \<open>
  A list of operations is an admissible run from \<open>c\<close> when no operation is invoked on a
  closed consumer (the backend contract) and every handshake is fresh.
\<close>

fun admissible ::
  "('p, 'e) nil_policy \<Rightarrow> nat \<Rightarrow> 'p consumer_op list \<Rightarrow> ('p, 'e) consumer \<Rightarrow> bool" where
  "admissible nil msz [] c = True"
| "admissible nil msz (x # xs) c =
     (\<not> closed c \<and> fresh_handshake x c \<and> admissible nil msz xs (consumer_step nil msz x c))"

text \<open>
  The invariant of the buffer: the sequence numbers of the slots increase strictly from
  front to back and none is below \<^verbatim>\<open>next_seq_\<close>; in an open consumer all of them are
  above \<^verbatim>\<open>next_seq_\<close>.
\<close>

definition buf_inv :: "('p, 'e) consumer \<Rightarrow> bool" where
  "buf_inv c =
     (sorted_wrt (<) (map oe_seq (c_buf c))
      \<and> (\<forall>x\<in>set (c_buf c). c_next_seq c \<le> oe_seq x)
      \<and> (\<not> closed c \<longrightarrow> (\<forall>x\<in>set (c_buf c). c_next_seq c < oe_seq x)))"

text \<open>
  Two runs from the initial consumer. In \<open>ops_reorder\<close> the events 3 and 5 arrive before
  event 1; in \<open>ops_stale\<close> the event 3 arrives before the handshake with offset 5.
\<close>

definition ops_reorder :: "nat consumer_op list" where
  "ops_reorder = [op_handshake 0 5, op_event 3 7, op_event 5 8, op_event 1 6]"

definition ops_stale :: "nat consumer_op list" where
  "ops_stale = [op_event 3 7, op_handshake 5 5]"

text \<open>
  The sequence numbers of the half-open interval from \<open>a\<close> to \<open>b\<close>, in ascending order, and
  what the NACK of a consumer should list: those of them between \<^verbatim>\<open>next_seq_\<close> and
  \<^verbatim>\<open>last_seq_\<close> that no slot of the buffer has.
\<close>

definition seq_range :: "sequence_number_type \<Rightarrow> sequence_number_type \<Rightarrow> sequence_number_type list" where
  "seq_range a b = map of_nat [unat a ..< unat b]"

definition missing_seqs :: "('p, 'e) consumer \<Rightarrow> sequence_number_type list" where
  "missing_seqs c =
     filter (\<lambda>s. s \<notin> oe_seq ` set (c_buf c)) (seq_range (c_next_seq c) (c_last_seq c))"

text \<open>
  A run that ends just before a NACK is due: after the handshake with offset 0 the
  heartbeat 2 sets \<open>last_seq = 3\<close>, \<^verbatim>\<open>retransmit_failed{5}\<close> puts an empty slot 5 into the
  buffer, and five ticks pass.
\<close>

definition ops_far :: "nat consumer_op list" where
  "ops_far =
     [op_handshake 0 5, op_heartbeat 2, op_retransmit_failed 5,
      op_tick, op_tick, op_tick, op_tick, op_tick]"

definition c_far :: "(nat, unit) consumer" where
  "c_far = consumer_run nil_ok max_size_64 ops_far consumer_init"

text \<open>The same run without the slot 5, and with event 3 in the buffer.\<close>

definition ops_near :: "nat consumer_op list" where
  "ops_near =
     [op_handshake 0 5, op_heartbeat 4, op_event 3 7,
      op_tick, op_tick, op_tick, op_tick, op_tick]"

definition c_near :: "(nat, unit) consumer" where
  "c_near = consumer_run nil_ok max_size_64 ops_near consumer_init"

subsection \<open>Runs of a producer\<close>

text \<open>\<open>n\<close> consecutive \<^verbatim>\<open>tick()\<close> invocations, with no other call in between.\<close>

fun p_ticks :: "nat \<Rightarrow> ('h, 'p) producer \<Rightarrow> ('h, 'p) producer" where
  "p_ticks 0 p = p"
| "p_ticks (Suc n) p = p_ticks n (p_tick_op p)"

text \<open>
  The initial producer after three ticks, and the same producer after the setter
  \<^verbatim>\<open>heartbeat_interval(2)\<close>: the last broadcast is three ticks old, the interval is two.
\<close>

definition p_three :: "(nat, nat) producer" where
  "p_three = p_ticks 3 producer_init"

definition p_late :: "(nat, nat) producer" where
  "p_late = set_heartbeat_interval 2 p_three"

text \<open>The calls a producer can be given, and the producer after a list of them.\<close>

datatype ('h, 'p) producer_op =
    op_produce 'p
  | op_add 'h
  | op_ack 'h sequence_number_type
  | op_nack 'h "sequence_number_type list"
  | op_ptick

fun producer_step :: "('h, 'p) producer_op \<Rightarrow> ('h, 'p) producer \<Rightarrow> ('h, 'p) producer" where
  "producer_step (op_produce pl) p = produce pl p"
| "producer_step (op_add h) p = snd (add h p)"
| "producer_step (op_ack h s) p = handle_ack h s p"
| "producer_step (op_nack h seqs) p = handle_nack h seqs p"
| "producer_step op_ptick p = p_tick_op p"

definition producer_run :: "('h, 'p) producer_op list \<Rightarrow> ('h, 'p) producer \<Rightarrow> ('h, 'p) producer" where
  "producer_run ops p = fold producer_step ops p"

text \<open>
  A call is \<^emph>\<open>honest\<close> for a producer when it acknowledges nothing beyond the current
  sequence number (an ACK for \<open>s \<le> seq\<close>; a NACK whose first entry is 0 or at most
  \<open>seq + 1\<close>, since everything before the first entry counts as acknowledged) and when
  \<^verbatim>\<open>produce\<close> does not make \<^verbatim>\<open>seq_\<close> wrap around.
\<close>

fun honest_op :: "('h, 'p) producer_op \<Rightarrow> ('h, 'p) producer \<Rightarrow> bool" where
  "honest_op (op_produce pl) p = (p_paths p = [] \<or> p_seq p \<noteq> - 1)"
| "honest_op (op_ack h s) p = (s \<le> p_seq p)"
| "honest_op (op_nack h seqs) p =
     (case seqs of [] \<Rightarrow> True | first # _ \<Rightarrow> first = 0 \<or> first - 1 \<le> p_seq p)"
| "honest_op _ p = True"

fun honest :: "('h, 'p) producer_op list \<Rightarrow> ('h, 'p) producer \<Rightarrow> bool" where
  "honest [] p = True"
| "honest (x # xs) p = (honest_op x p \<and> honest xs (producer_step x p))"

text \<open>The producer \<open>p_two\<close> three ticks after its last broadcast.\<close>

definition p_two3 :: "(nat, nat) producer" where
  "p_two3 = p_ticks 3 p_two"

text \<open>
  The invariant of a producer whose consumers are honest: the handles of the paths are
  distinct, every path has \<open>offset \<le> acked \<le> seq\<close>, the buffer holds events with strictly
  increasing sequence numbers up to \<open>seq\<close>, and every buffered event is still
  unacknowledged by some path.
\<close>

definition producer_inv :: "('h, 'p) producer \<Rightarrow> bool" where
  "producer_inv p =
     (distinct (map hdl (p_paths p))
      \<and> (\<forall>x\<in>set (p_paths p). offset x \<le> acked x \<and> acked x \<le> p_seq p)
      \<and> sorted_wrt (<) (map ev_seq (p_buf p))
      \<and> (\<forall>e\<in>set (p_buf p). ev_seq e \<le> p_seq p)
      \<and> (\<forall>e\<in>set (p_buf p). \<exists>x\<in>set (p_paths p). acked x < ev_seq e))"

text \<open>\<^verbatim>\<open>handle_ack(h, seq)\<close> once for every handle \<open>h\<close> of \<^verbatim>\<open>paths_\<close>, in their order.\<close>

definition ack_all :: "('h, 'p) producer \<Rightarrow> ('h, 'p) producer" where
  "ack_all p = fold (\<lambda>h. handle_ack h (p_seq p)) (map hdl (p_paths p)) p"

text \<open>
  What the loop of \<^verbatim>\<open>handle_ack(h, s)\<close> may do to a path: it keeps handle and offset, and
  either keeps \<open>acked\<close> or, on a path of \<open>h\<close> with \<open>acked < s\<close>, stores \<open>s\<close>.
\<close>

definition ack_rel :: "'h \<Rightarrow> sequence_number_type \<Rightarrow> 'h path \<Rightarrow> 'h path \<Rightarrow> bool" where
  "ack_rel h s x y =
     (hdl y = hdl x \<and> offset y = offset x
      \<and> (acked y = acked x \<or> (hdl x = h \<and> acked x < s \<and> acked y = s)))"

section \<open>Properties of the consumer\<close>

subsection \<open>Backend calls and the sequence counters\<close>

lemma c_call_last_seq [simp]: "c_last_seq (c_call x c) = c_last_seq c"
  by (simp add: c_call_def)

lemma c_call_next_seq [simp]: "c_next_seq (c_call x c) = c_next_seq c"
  by (simp add: c_call_def)

lemma c_call_buf [simp]: "c_buf (c_call x c) = c_buf c"
  by (simp add: c_call_def)

lemma bump_seq_next: "c_next_seq (bump_seq c) = c_next_seq c + 1"
  by (simp add: bump_seq_def Let_def)

lemma bump_seq_buf: "c_buf (bump_seq c) = c_buf c"
  by (simp add: bump_seq_def Let_def)

lemma bump_seq_last_seq_mono: "c_last_seq c \<le> c_last_seq (bump_seq c)"
  by (auto simp: bump_seq_def Let_def)

text \<open>An increment of a sequence number below \<open>2\<^sup>6\<^sup>4 - 1\<close> (the word \<open>- 1\<close>) does not wrap.\<close>

lemma unat_plus1: "(n :: 64 word) \<noteq> - 1 \<Longrightarrow> unat (n + 1) = unat n + 1"
proof -
  assume "n \<noteq> - 1"
  then have "1 + n \<noteq> 0"
    using max_word_wrap [of n] by (auto simp: add.commute)
  then show ?thesis
    using unatSuc [of n] by (simp add: add.commute)
qed

lemma handle_event_ignored: "s < c_next_seq c \<Longrightarrow> handle_event nil s pl c = c"
  by (auto simp: handle_event_def)

lemma handle_handshake_ignored: "off < c_next_seq c \<Longrightarrow> handle_handshake nil off hb c = c"
  by (simp add: handle_handshake_def)

subsection \<open>The known end of the stream\<close>

lemma consume_loop_last_seq_mono:
  "c_last_seq c \<le> c_last_seq (snd (snd (consume_loop nil xs c)))"
proof (induction xs arbitrary: c)
  case Nil
  show ?case by simp
next
  case (Cons x xs)
  have step: "c_last_seq c \<le> c_last_seq (snd (snd (consume_loop nil xs (bump_seq (c_call y c)))))"
    for y
  proof -
    have "c_last_seq c \<le> c_last_seq (bump_seq (c_call y c))"
      using bump_seq_last_seq_mono [of "c_call y c"] by simp
    also have "\<dots> \<le> c_last_seq (snd (snd (consume_loop nil xs (bump_seq (c_call y c)))))"
      by (rule Cons.IH)
    finally show ?thesis .
  qed
  show ?case
    by (simp add: step split: option.splits)
qed

lemma try_consume_buffer_last_seq_mono:
  "c_last_seq c \<le> c_last_seq (try_consume_buffer nil c)"
proof -
  obtain rest r c1 where eq: "consume_loop nil (c_buf c) c = (rest, r, c1)"
    by (cases "consume_loop nil (c_buf c) c") auto
  have "c_last_seq c \<le> c_last_seq c1"
    using consume_loop_last_seq_mono [of c nil "c_buf c"] eq by simp
  then show ?thesis
    by (cases r) (simp_all add: try_consume_buffer_def eq)
qed

lemma handle_heartbeat_mono: "c_last_seq c \<le> c_last_seq (handle_heartbeat s c)"
  by (auto simp: handle_heartbeat_def)

lemma handle_event_mono: "c_last_seq c \<le> c_last_seq (handle_event nil s pl c)"
proof -
  have "c_last_seq c \<le> c_last_seq (bump_seq (c_call (consume pl) c))"
    using bump_seq_last_seq_mono [of "c_call (consume pl) c"] by simp
  also have "\<dots> \<le> c_last_seq (try_consume_buffer nil (bump_seq (c_call (consume pl) c)))"
    by (rule try_consume_buffer_last_seq_mono)
  finally show ?thesis
    by (auto simp: handle_event_def Let_def)
qed

lemma handle_retransmit_failed_mono:
  "c_last_seq c \<le> c_last_seq (handle_retransmit_failed nil s c)"
proof -
  have "c_last_seq c \<le> c_last_seq (bump_seq (c_call consume_nil c))"
    using bump_seq_last_seq_mono [of "c_call consume_nil c"] by simp
  also have "\<dots> \<le> c_last_seq (try_consume_buffer nil (bump_seq (c_call consume_nil c)))"
    by (rule try_consume_buffer_last_seq_mono)
  finally show ?thesis
    by (simp add: handle_retransmit_failed_def split: option.splits)
qed

lemma c_tick_op_last_seq: "c_last_seq (c_tick_op c) = c_last_seq c"
  by (simp add: c_tick_op_def Let_def send_ack_def)

lemma handle_handshake_mono:
  assumes "c_last_seq c \<le> off + 1"
  shows "c_last_seq c \<le> c_last_seq (handle_handshake nil off hb c)"
proof (cases "off \<ge> c_next_seq c")
  case True
  let ?c1 = "c\<lparr>c_next_seq := off + 1, c_last_seq := off + 1, c_heartbeat_interval := ucast hb\<rparr>"
  have "c_last_seq c \<le> c_last_seq ?c1"
    using assms by simp
  also have "\<dots> \<le> c_last_seq (try_consume_buffer nil ?c1)"
    by (rule try_consume_buffer_last_seq_mono)
  finally show ?thesis
    using True by (simp add: handle_handshake_def)
next
  case False
  then show ?thesis
    by (simp add: handle_handshake_def)
qed

text \<open>
  Claim C4, as the code has it. \<^verbatim>\<open>handle_heartbeat\<close>, \<^verbatim>\<open>handle_event\<close>,
  \<^verbatim>\<open>handle_retransmit_failed\<close> and \<^verbatim>\<open>tick\<close> never lower \<^verbatim>\<open>last_seq_\<close>, in any consumer
  state and for any argument. \<^verbatim>\<open>handle_handshake(offset, hb)\<close> leaves \<^verbatim>\<open>last_seq_\<close> as it
  is when the handshake is ignored (\<open>offset < next_seq\<close>) and does not lower it when
  \<open>last_seq \<le> offset + 1\<close>; an accepted handshake assigns \<open>offset + 1\<close> to \<^verbatim>\<open>last_seq_\<close>
  whatever its old value was.
\<close>

theorem last_seq_monotone:
  "c_last_seq c \<le> c_last_seq (handle_heartbeat s c)
   \<and> c_last_seq c \<le> c_last_seq (handle_event nil s pl c)
   \<and> c_last_seq c \<le> c_last_seq (handle_retransmit_failed nil s c)
   \<and> c_last_seq c \<le> c_last_seq (c_tick_op c)
   \<and> (off < c_next_seq c \<longrightarrow> c_last_seq (handle_handshake nil off hb c) = c_last_seq c)
   \<and> (c_last_seq c \<le> off + 1 \<longrightarrow> c_last_seq c \<le> c_last_seq (handle_handshake nil off hb c))"
  using handle_heartbeat_mono [of c s] handle_event_mono [of c nil s pl]
    handle_retransmit_failed_mono [of c nil s] c_tick_op_last_seq [of c]
    handle_handshake_ignored [of off c nil hb] handle_handshake_mono [of c off nil hb]
  by simp

text \<open>
  The theorem at the consumer \<open>c_gap\<close> (\<open>next_seq = 1\<close>, \<open>last_seq = 5\<close>): the handshake
  with offset 0 is ignored, the handshake with offset 4 keeps \<open>last_seq = 5\<close>.
\<close>

theorem last_seq_monotone_witness:
  "(0 :: sequence_number_type) < c_next_seq c_gap
   \<and> c_last_seq (handle_handshake nil_ok 0 5 c_gap) = c_last_seq c_gap
   \<and> c_last_seq c_gap \<le> 4 + 1
   \<and> c_last_seq c_gap \<le> c_last_seq (handle_handshake nil_ok 4 5 c_gap)"
proof -
  have nx: "c_next_seq c_gap = 1" and last: "c_last_seq c_gap = 5"
    by (simp_all add: c_gap_def handle_event_def handle_handshake_def consumer_init_def
        try_consume_buffer_def Let_def)
  show ?thesis
    using last_seq_monotone [of c_gap 0 nil_ok 0 0 5] last_seq_monotone [of c_gap 0 nil_ok 0 4 5]
    by (simp add: nx last)
qed

text \<open>
  Claim C4 as stated fails for \<^verbatim>\<open>handle_handshake\<close>: at \<open>c_gap\<close>, where \<open>next_seq = 1\<close> and
  \<open>last_seq = 5\<close>, the handshake with offset 1 is accepted and leaves \<open>last_seq = 2\<close>.
\<close>

theorem handshake_lowers_last_seq:
  "c_last_seq c_gap = 5 \<and> c_last_seq (handle_handshake nil_ok 1 5 c_gap) = 2"
  by (simp add: c_gap_def handle_event_def handle_handshake_def consumer_init_def
      try_consume_buffer_def Let_def)

subsection \<open>Known-lost slots\<close>

lemma insert_nil_mem:
  "s \<notin> oe_seq ` set xs \<Longrightarrow> optional_event s None \<in> set (insert_nil s xs)"
  by (induction xs) auto

text \<open>
  Claim C10. For every consumer state and every \<open>s > next_seq\<close>,
  \<^verbatim>\<open>handle_retransmit_failed(s)\<close> changes the buffer only: \<^verbatim>\<open>last_seq_\<close> stays as it is,
  whereas \<^verbatim>\<open>handle_event\<close> with the same \<open>s\<close> raises it to \<open>max last_seq s\<close>. When no slot
  of the buffer has the sequence number \<open>s\<close>, a slot without content is inserted for it,
  whether or not \<open>s \<ge> last_seq\<close>.
\<close>

theorem retransmit_failed_keeps_last_seq:
  assumes "c_next_seq c < s"
  shows "handle_retransmit_failed nil s c = c\<lparr>c_buf := insert_nil s (c_buf c)\<rparr>
         \<and> c_last_seq (handle_retransmit_failed nil s c) = c_last_seq c
         \<and> (s \<notin> oe_seq ` set (c_buf c) \<longrightarrow>
              optional_event s None \<in> set (c_buf (handle_retransmit_failed nil s c)))
         \<and> c_last_seq (handle_event nil s pl c) = max (c_last_seq c) s"
proof -
  have ne: "c_next_seq c \<noteq> s"
    using assms by auto
  have 1: "handle_retransmit_failed nil s c = c\<lparr>c_buf := insert_nil s (c_buf c)\<rparr>"
    using assms ne by (simp add: handle_retransmit_failed_def)
  have 2: "c_last_seq (handle_event nil s pl c) = max (c_last_seq c) s"
    using assms ne by (auto simp: handle_event_def Let_def max_def)
  show ?thesis
    using 1 2 insert_nil_mem [of s "c_buf c"] by simp
qed

text \<open>
  At \<open>c_gap\<close> (\<open>next_seq = 1\<close>, \<open>last_seq = 5\<close>, slot 5 buffered) and \<open>s = 9\<close>: the slot
  inserted for 9 lies beyond \<open>last_seq\<close>, which remains 5.
\<close>

theorem retransmit_failed_keeps_last_seq_witness:
  "c_next_seq c_gap < 9 \<and> 9 \<notin> oe_seq ` set (c_buf c_gap)
   \<and> c_last_seq (handle_retransmit_failed nil_ok 9 c_gap) = 5
   \<and> optional_event 9 None \<in> set (c_buf (handle_retransmit_failed nil_ok 9 c_gap))
   \<and> c_last_seq (handle_event nil_ok 9 7 c_gap) = 9"
proof -
  have nx: "c_next_seq c_gap = 1" and last: "c_last_seq c_gap = 5"
    and buf: "c_buf c_gap = [optional_event 5 (Some 7)]"
    by (simp_all add: c_gap_def handle_event_def handle_handshake_def consumer_init_def
        try_consume_buffer_def Let_def)
  have lt: "c_next_seq c_gap < 9"
    by (simp add: nx)
  show ?thesis
    using retransmit_failed_keeps_last_seq [OF lt, of nil_ok 7] by (simp add: nx last buf)
qed

subsection \<open>Duplicate events\<close>

lemma insert_event_idem: "insert_event s pl (insert_event s pl xs) = insert_event s pl xs"
  by (induction xs) auto

lemma consume_loop_next_seq_mono:
  assumes "\<forall>x\<in>set xs. oe_seq x \<noteq> - 1"
  shows "c_next_seq c \<le> c_next_seq (snd (snd (consume_loop nil xs c)))"
  using assms
proof (induction xs arbitrary: c)
  case Nil
  show ?case by simp
next
  case (Cons x xs)
  have step: "c_next_seq c \<le> c_next_seq (snd (snd (consume_loop nil xs (bump_seq (c_call y c)))))"
    if "oe_seq x = c_next_seq c" for y
  proof -
    have "c_next_seq c \<noteq> - 1"
      using Cons.prems that by auto
    then have "unat (c_next_seq c + 1) = unat (c_next_seq c) + 1"
      by (rule unat_plus1)
    then have "c_next_seq c \<le> c_next_seq (bump_seq (c_call y c))"
      by (simp add: bump_seq_next word_le_nat_alt)
    also have "\<dots> \<le> c_next_seq (snd (snd (consume_loop nil xs (bump_seq (c_call y c)))))"
      using Cons.prems by (intro Cons.IH) simp
    finally show ?thesis .
  qed
  show ?case
    by (simp add: step split: option.splits)
qed

lemma try_consume_buffer_next_seq_mono:
  assumes "\<forall>x\<in>set (c_buf c). oe_seq x \<noteq> - 1"
  shows "c_next_seq c \<le> c_next_seq (try_consume_buffer nil c)"
proof -
  obtain rest r c1 where eq: "consume_loop nil (c_buf c) c = (rest, r, c1)"
    by (cases "consume_loop nil (c_buf c) c") auto
  have "c_next_seq c \<le> c_next_seq c1"
    using consume_loop_next_seq_mono [OF assms, of c nil] eq by simp
  then show ?thesis
    by (cases r) (simp_all add: try_consume_buffer_def eq)
qed

lemma insert_event_filled:
  assumes "\<forall>y\<in>set pre. oe_seq y < s" and "oe_seq x = s" and "oe_content x = Some q"
  shows "insert_event s pl (pre @ x # post) = pre @ x # post"
  using assms by (induction pre) (auto simp: not_le)

text \<open>
  Claim C8, as the code has it. A second \<^verbatim>\<open>handle_event(s, payload)\<close> leaves the consumer
  exactly as the first one left it (all of the state, and no further call on the
  backend), for every consumer state and every event, provided the first delivery does
  not make \<^verbatim>\<open>next_seq_\<close> wrap around: when \<open>s = next_seq\<close>, \<^verbatim>\<open>next_seq_\<close> after the call is
  above \<open>s\<close>. That is so whenever neither \<open>s\<close> nor a sequence number of the buffer is
  \<open>2\<^sup>6\<^sup>4 - 1\<close> (written \<open>- 1\<close>); for \<open>s \<noteq> next_seq\<close> nothing is required. An event with
  \<open>s < next_seq\<close> is ignored. An event with \<open>s > next_seq\<close> whose slot (the first one
  with \<open>seq \<ge> s\<close>) has the sequence number \<open>s\<close> and a payload is dropped: buffer and
  payload stay as they are, and only \<^verbatim>\<open>last_seq_\<close> is raised to \<open>max last_seq s\<close>.
\<close>

theorem handle_event_idempotent:
  "((c_next_seq c = s \<longrightarrow> s < c_next_seq (handle_event nil s pl c)) \<longrightarrow>
      handle_event nil s pl (handle_event nil s pl c) = handle_event nil s pl c)
   \<and> (c_next_seq c = s \<longrightarrow> s \<noteq> - 1 \<longrightarrow> (\<forall>x\<in>set (c_buf c). oe_seq x \<noteq> - 1) \<longrightarrow>
        s < c_next_seq (handle_event nil s pl c))
   \<and> (s < c_next_seq c \<longrightarrow> handle_event nil s pl c = c)
   \<and> (c_next_seq c < s \<longrightarrow> c_buf c = pre @ x # post \<longrightarrow> (\<forall>y\<in>set pre. oe_seq y < s) \<longrightarrow>
        oe_seq x = s \<longrightarrow> oe_content x = Some q \<longrightarrow>
        handle_event nil s pl c = c\<lparr>c_last_seq := max (c_last_seq c) s\<rparr>)"
proof -
  have idem: "handle_event nil s pl (handle_event nil s pl c) = handle_event nil s pl c"
    if "c_next_seq c = s \<longrightarrow> s < c_next_seq (handle_event nil s pl c)"
  proof -
    consider (now) "c_next_seq c = s" | (later) "c_next_seq c < s" | (old) "s < c_next_seq c"
      by fastforce
    then show ?thesis
    proof cases
      case now
      then have "s < c_next_seq (handle_event nil s pl c)"
        using that by simp
      then show ?thesis
        by (rule handle_event_ignored)
    next
      case later
      then have ne: "c_next_seq c \<noteq> s"
        by auto
      show ?thesis
        using later ne by (auto simp: handle_event_def Let_def insert_event_idem)
    next
      case old
      then show ?thesis
        by (simp add: handle_event_ignored)
    qed
  qed
  have nowrap: "s < c_next_seq (handle_event nil s pl c)"
    if now: "c_next_seq c = s" and ne: "s \<noteq> - 1" and buf: "\<forall>x\<in>set (c_buf c). oe_seq x \<noteq> - 1"
  proof -
    let ?c1 = "bump_seq (c_call (consume pl) c)"
    have "unat (s + 1) = unat s + 1"
      using ne by (rule unat_plus1)
    then have "s < c_next_seq ?c1"
      using now by (simp add: bump_seq_next word_less_nat_alt)
    also have "c_next_seq ?c1 \<le> c_next_seq (try_consume_buffer nil ?c1)"
      using buf by (intro try_consume_buffer_next_seq_mono) (simp add: bump_seq_buf)
    finally show ?thesis
      using now by (simp add: handle_event_def)
  qed
  have filled: "handle_event nil s pl c = c\<lparr>c_last_seq := max (c_last_seq c) s\<rparr>"
    if later: "c_next_seq c < s" and b: "c_buf c = pre @ x # post"
      and p: "\<forall>y\<in>set pre. oe_seq y < s" and x: "oe_seq x = s" "oe_content x = Some q"
  proof -
    have ne: "c_next_seq c \<noteq> s"
      using later by auto
    have ins: "insert_event s pl (c_buf c) = c_buf c"
      using insert_event_filled [OF p x, of pl post] by (simp add: b)
    show ?thesis
      using later ne ins
      by (cases "c_last_seq c < s") (simp_all add: handle_event_def max_def not_less)
  qed
  show ?thesis
    using idem nowrap filled handle_event_ignored [of s c nil pl] by blast
qed

text \<open>
  At \<open>c_gap2\<close> (\<open>next_seq = 1\<close>, \<open>last_seq = 5\<close>, events 2 and 5 buffered with the payloads
  6 and 7): the event 1 is consumed together with the buffered event 2 by the first call
  and ignored by the second; the event \<open>(5, 99)\<close> finds the slot 5 filled and changes
  nothing, the payload 7 stays; the event 0 is ignored at once.
\<close>

theorem handle_event_idempotent_witness:
  "c_next_seq c_gap2 = 1 \<and> c_last_seq c_gap2 = 5
   \<and> c_buf c_gap2 = [optional_event 2 (Some 6), optional_event 5 (Some 7)]
   \<and> c_next_seq (handle_event nil_ok 1 8 c_gap2) = 3
   \<and> c_buf (handle_event nil_ok 1 8 c_gap2) = [optional_event 5 (Some 7)]
   \<and> map snd (c_out (handle_event nil_ok 1 8 c_gap2)) = [consume 8, consume 6]
   \<and> handle_event nil_ok 1 8 (handle_event nil_ok 1 8 c_gap2) = handle_event nil_ok 1 8 c_gap2
   \<and> handle_event nil_ok 5 99 c_gap2 = c_gap2
   \<and> handle_event nil_ok 0 8 c_gap2 = c_gap2"
proof -
  have st: "c_gap2 = \<lparr> c_next_seq = 1, c_last_seq = 5,
      c_buf = [optional_event 2 (Some 6), optional_event 5 (Some 7)], c_tick = 1,
      c_last_tick_seq = 0, c_idle_ticks = 0, c_heartbeat_interval = 5,
      c_nack_timeout = 5, c_out = [] \<rparr>"
    by (simp add: c_gap2_def c_gap_def handle_event_def handle_handshake_def consumer_init_def
        try_consume_buffer_def lamport_timestamp_init_def nil_ok_def Let_def)
  have once: "c_next_seq (handle_event nil_ok 1 8 c_gap2) = 3"
    "c_buf (handle_event nil_ok 1 8 c_gap2) = [optional_event 5 (Some 7)]"
    "map snd (c_out (handle_event nil_ok 1 8 c_gap2)) = [consume 8, consume 6]"
    by (simp_all add: st handle_event_def try_consume_buffer_def bump_seq_def c_call_def
        nil_ok_def Let_def)
  have b: "c_buf c_gap2 = [optional_event 2 (Some 6)] @ optional_event 5 (Some 7) # []"
    by (simp add: st)
  have p: "\<forall>y\<in>set [optional_event 2 (Some (6 :: nat))]. oe_seq y < 5"
    by simp
  have a: "handle_event nil_ok 1 8 (handle_event nil_ok 1 8 c_gap2) = handle_event nil_ok 1 8 c_gap2"
    using handle_event_idempotent [of c_gap2 1 nil_ok 8] once(1) by simp
  have f: "handle_event nil_ok 5 99 c_gap2 = c_gap2"
    using handle_event_idempotent
      [of c_gap2 5 nil_ok 99 "[optional_event 2 (Some 6)]" "optional_event 5 (Some 7)" "[]" 7] b p
    by (simp add: st)
  have i: "handle_event nil_ok 0 8 c_gap2 = c_gap2"
    using handle_event_idempotent [of c_gap2 0 nil_ok 8] by (simp add: st)
  show ?thesis
    using once a f i by (simp add: st)
qed

text \<open>
  Claim C8 as stated fails where \<^verbatim>\<open>next_seq_\<close> wraps around. At \<open>c_edge\<close>
  (\<open>next_seq = 2\<^sup>6\<^sup>4 - 1\<close>, empty buffer) the first \<^verbatim>\<open>handle_event(18446744073709551615, 7)\<close>
  consumes the event and leaves \<open>next_seq = 0\<close> with an empty buffer; the second one finds
  \<open>seq > next_seq\<close> and puts the event into the buffer.
\<close>

theorem handle_event_twice_wraparound:
  "c_next_seq c_edge = 18446744073709551615
   \<and> c_next_seq (handle_event nil_ok 18446744073709551615 7 c_edge) = 0
   \<and> c_buf (handle_event nil_ok 18446744073709551615 7 c_edge) = []
   \<and> c_buf (handle_event nil_ok 18446744073709551615 7
              (handle_event nil_ok 18446744073709551615 7 c_edge))
       = [optional_event 18446744073709551615 (Some 7)]"
  by (simp add: c_edge_def handle_handshake_def consumer_init_def try_consume_buffer_def
      handle_event_def bump_seq_def c_call_def Let_def)

subsection \<open>The buffer of the consumer\<close>

lemma closed_c_call: "closed (c_call x c) = (closed c \<or> is_close x)"
  by (simp add: closed_def c_call_def)

lemma closed_bump_seq: "closed (bump_seq c) = closed c"
  by (simp add: closed_def bump_seq_def Let_def)

lemma closed_buf_update: "closed (c\<lparr>c_buf := b\<rparr>) = closed c"
  by (simp add: closed_def)

lemma consume_loop_closed:
  "closed (snd (snd (consume_loop nil xs c))) = closed c"
  by (induction xs arbitrary: c)
    (simp_all add: closed_c_call closed_bump_seq split: option.splits)

lemma consume_loop_sorted:
  "sorted_wrt (<) (map oe_seq xs) \<Longrightarrow>
   sorted_wrt (<) (map oe_seq (fst (consume_loop nil xs c)))"
  by (induction xs arbitrary: c) (auto split: option.splits)

lemma consume_loop_bounds:
  assumes "sorted_wrt (<) (map oe_seq xs)" and "\<forall>x\<in>set xs. c_next_seq c \<le> oe_seq x"
    and "consume_loop nil xs c = (rest, r, c1)"
  shows "(\<forall>x\<in>set rest. c_next_seq c1 \<le> oe_seq x)
         \<and> (r = None \<longrightarrow> (\<forall>x\<in>set rest. c_next_seq c1 < oe_seq x))"
  using assms
proof (induction xs arbitrary: c)
  case Nil
  then show ?case by auto
next
  case (Cons x xs)
  have srt: "sorted_wrt (<) (map oe_seq xs)" and above: "\<forall>y\<in>set xs. oe_seq x < oe_seq y"
    using Cons.prems(1) by auto
  show ?case
  proof (cases "oe_seq x = c_next_seq c")
    case True
    have nxt: "\<forall>y\<in>set xs. c_next_seq (bump_seq (c_call z c)) \<le> oe_seq y" for z
      using above True by (simp add: bump_seq_next inc_le)
    show ?thesis
    proof (cases "oe_content x")
      case (Some pl)
      then have "consume_loop nil xs (bump_seq (c_call (consume pl) c)) = (rest, r, c1)"
        using Cons.prems(3) True by simp
      then show ?thesis
        by (rule Cons.IH [OF srt nxt])
    next
      case None
      show ?thesis
      proof (cases "nil c")
        case (Some err)
        then have "rest = x # xs" "r = Some err" "c1 = c_call consume_nil c"
          using Cons.prems(3) True None by auto
        then show ?thesis
          using Cons.prems(2) by simp
      next
        case nil_none: None
        then have "consume_loop nil xs (bump_seq (c_call consume_nil c)) = (rest, r, c1)"
          using Cons.prems(3) True None by simp
        then show ?thesis
          by (rule Cons.IH [OF srt nxt])
      qed
    qed
  next
    case False
    then have eq: "rest = x # xs" "r = None" "c1 = c"
      using Cons.prems(3) by auto
    have "c_next_seq c \<le> oe_seq x"
      using Cons.prems(2) by simp
    then have lt: "c_next_seq c < oe_seq x"
      using False by (simp add: less_le)
    have all: "\<forall>y\<in>set (x # xs). c_next_seq c < oe_seq y"
    proof
      fix y assume "y \<in> set (x # xs)"
      then have "y = x \<or> y \<in> set xs" by simp
      then show "c_next_seq c < oe_seq y"
        using lt above less_trans by blast
    qed
    then have "\<forall>y\<in>set (x # xs). c_next_seq c \<le> oe_seq y"
      using less_imp_le by blast
    then show ?thesis
      using all eq by simp
  qed
qed

lemma try_consume_buffer_inv:
  assumes "sorted_wrt (<) (map oe_seq (c_buf c))" and "\<forall>x\<in>set (c_buf c). c_next_seq c \<le> oe_seq x"
  shows "buf_inv (try_consume_buffer nil c)"
proof -
  obtain rest r c1 where eq: "consume_loop nil (c_buf c) c = (rest, r, c1)"
    by (cases "consume_loop nil (c_buf c) c") auto
  have s: "sorted_wrt (<) (map oe_seq rest)"
    using consume_loop_sorted [OF assms(1), of nil c] eq by simp
  have b: "(\<forall>x\<in>set rest. c_next_seq c1 \<le> oe_seq x)
         \<and> (r = None \<longrightarrow> (\<forall>x\<in>set rest. c_next_seq c1 < oe_seq x))"
    using consume_loop_bounds [OF assms eq] .
  show ?thesis
  proof (cases r)
    case None
    then show ?thesis
      using s b by (simp add: try_consume_buffer_def eq buf_inv_def)
  next
    case (Some err)
    then show ?thesis
      using s b by (simp add: try_consume_buffer_def eq buf_inv_def closed_c_call)
  qed
qed

lemma insert_event_seqs: "oe_seq ` set (insert_event s pl xs) = insert s (oe_seq ` set xs)"
  by (induction xs) auto

lemma insert_nil_seqs: "oe_seq ` set (insert_nil s xs) = insert s (oe_seq ` set xs)"
  by (induction xs) auto

lemma insert_event_sorted:
  "sorted_wrt (<) (map oe_seq xs) \<Longrightarrow> sorted_wrt (<) (map oe_seq (insert_event s pl xs))"
proof (induction xs)
  case Nil
  show ?case by simp
next
  case (Cons x xs)
  show ?case
  proof (cases "s \<le> oe_seq x")
    case True
    then show ?thesis
      using Cons.prems by (auto simp: word_le_less_eq)
  next
    case False
    have "\<forall>y\<in>set (insert_event s pl xs). oe_seq x < oe_seq y"
    proof
      fix y assume "y \<in> set (insert_event s pl xs)"
      then have "oe_seq y \<in> insert s (oe_seq ` set xs)"
        using insert_event_seqs [of s pl xs] by blast
      then show "oe_seq x < oe_seq y"
        using False Cons.prems by auto
    qed
    then show ?thesis
      using False Cons by simp
  qed
qed

lemma insert_nil_sorted:
  "sorted_wrt (<) (map oe_seq xs) \<Longrightarrow> sorted_wrt (<) (map oe_seq (insert_nil s xs))"
proof (induction xs)
  case Nil
  show ?case by simp
next
  case (Cons x xs)
  show ?case
  proof (cases "s \<le> oe_seq x")
    case True
    then show ?thesis
      using Cons.prems by (auto simp: word_le_less_eq)
  next
    case False
    have "\<forall>y\<in>set (insert_nil s xs). oe_seq x < oe_seq y"
    proof
      fix y assume "y \<in> set (insert_nil s xs)"
      then have "oe_seq y \<in> insert s (oe_seq ` set xs)"
        using insert_nil_seqs [of s xs] by blast
      then show "oe_seq x < oe_seq y"
        using False Cons.prems by auto
    qed
    then show ?thesis
      using False Cons by simp
  qed
qed

lemma insert_event_lower:
  assumes "n < s" and "\<forall>x\<in>set xs. n < oe_seq x" and "y \<in> set (insert_event s pl xs)"
  shows "n < oe_seq y"
proof -
  have "oe_seq y \<in> insert s (oe_seq ` set xs)"
    using assms(3) insert_event_seqs [of s pl xs] by blast
  then show ?thesis using assms(1,2) by auto
qed

lemma insert_nil_lower:
  assumes "n < s" and "\<forall>x\<in>set xs. n < oe_seq x" and "y \<in> set (insert_nil s xs)"
  shows "n < oe_seq y"
proof -
  have "oe_seq y \<in> insert s (oe_seq ` set xs)"
    using assms(3) insert_nil_seqs [of s xs] by blast
  then show ?thesis using assms(1,2) by auto
qed

text \<open>Sortedness alone survives every operation.\<close>

lemma try_consume_buffer_sorted:
  assumes "sorted_wrt (<) (map oe_seq (c_buf c))"
  shows "sorted_wrt (<) (map oe_seq (c_buf (try_consume_buffer nil c)))"
proof -
  obtain rest r c1 where eq: "consume_loop nil (c_buf c) c = (rest, r, c1)"
    by (cases "consume_loop nil (c_buf c) c") auto
  have "sorted_wrt (<) (map oe_seq rest)"
    using consume_loop_sorted [OF assms, of nil c] eq by simp
  then show ?thesis
    by (cases r) (simp_all add: try_consume_buffer_def eq)
qed

lemma c_tick_op_buf: "c_buf (c_tick_op c) = c_buf c"
  by (simp add: c_tick_op_def Let_def send_ack_def)

lemma c_tick_op_next_seq: "c_next_seq (c_tick_op c) = c_next_seq c"
  by (simp add: c_tick_op_def Let_def send_ack_def)

lemma c_tick_op_closed: "closed (c_tick_op c) = closed c"
  by (simp add: c_tick_op_def Let_def send_ack_def closed_def c_call_def)

lemma after_tick_buf: "c_buf (after_tick (tick msz c)) = c_buf c"
  by (simp add: after_tick_def tick_def c_tick_op_buf)

lemma after_tick_next_seq: "c_next_seq (after_tick (tick msz c)) = c_next_seq c"
  by (simp add: after_tick_def tick_def c_tick_op_next_seq)

lemma after_tick_closed: "closed (after_tick (tick msz c)) = closed c"
proof (cases "sends_nack c \<and> msz < unat (c_last_seq c - c_next_seq c)")
  case True
  then show ?thesis
    by (simp add: after_tick_def tick_def closed_def)
next
  case False
  then have "tick msz c = Inr (c_tick_op c)"
    by (auto simp: tick_def)
  then show ?thesis
    by (simp add: after_tick_def c_tick_op_closed)
qed

lemma consumer_step_sorted:
  assumes "sorted_wrt (<) (map oe_seq (c_buf c))"
  shows "sorted_wrt (<) (map oe_seq (c_buf (consumer_step nil msz x c)))"
proof (cases x)
  case (op_handshake off hb)
  then show ?thesis
    using assms by (simp add: handle_handshake_def try_consume_buffer_sorted)
next
  case (op_heartbeat s)
  then show ?thesis
    using assms by (simp add: handle_heartbeat_def)
next
  case (op_event s pl)
  then show ?thesis
    using assms
    by (simp add: handle_event_def Let_def try_consume_buffer_sorted bump_seq_buf
        insert_event_sorted)
next
  case (op_retransmit_failed s)
  then show ?thesis
    using assms
    by (simp add: handle_retransmit_failed_def try_consume_buffer_sorted bump_seq_buf
        insert_nil_sorted split: option.splits)
next
  case op_tick
  then show ?thesis
    using assms by (simp add: after_tick_buf)
qed

lemma consumer_run_sorted:
  "sorted_wrt (<) (map oe_seq (c_buf c)) \<Longrightarrow>
   sorted_wrt (<) (map oe_seq (c_buf (consumer_run nil msz ops c)))"
  unfolding consumer_run_def
  by (induction ops arbitrary: c) (simp_all add: consumer_step_sorted)

text \<open>The whole invariant survives an operation on an open consumer with a fresh handshake.\<close>

lemma buf_inv_open: "buf_inv c \<Longrightarrow> \<not> closed c \<Longrightarrow> \<forall>x\<in>set (c_buf c). c_next_seq c < oe_seq x"
  by (simp add: buf_inv_def)

lemma bumped_bound:
  assumes "\<forall>x\<in>set (c_buf c). c_next_seq c < oe_seq x"
  shows "\<forall>x\<in>set (c_buf (bump_seq (c_call z c))). c_next_seq (bump_seq (c_call z c)) \<le> oe_seq x"
  using assms by (simp add: bump_seq_next bump_seq_buf inc_le)

lemma consumer_step_inv:
  assumes inv: "buf_inv c" and op: "\<not> closed c" and fresh: "fresh_handshake x c"
  shows "buf_inv (consumer_step nil msz x c)"
proof -
  have srt: "sorted_wrt (<) (map oe_seq (c_buf c))"
    using inv by (simp add: buf_inv_def)
  have gt: "\<forall>x\<in>set (c_buf c). c_next_seq c < oe_seq x"
    using inv op by (rule buf_inv_open)
  show ?thesis
  proof (cases x)
    case (op_handshake off hb)
    show ?thesis
    proof (cases "off < c_next_seq c")
      case True
      then show ?thesis
        using inv op_handshake by (simp add: handle_handshake_ignored)
    next
      case False
      then have "\<forall>x\<in>set (c_buf c). off < oe_seq x"
        using fresh op_handshake by (simp add: list_all_iff)
      then have "\<forall>x\<in>set (c_buf c). off + 1 \<le> oe_seq x"
        by (simp add: inc_le)
      then have "buf_inv (try_consume_buffer nil
          (c\<lparr>c_next_seq := off + 1, c_last_seq := off + 1, c_heartbeat_interval := ucast hb\<rparr>))"
        using srt by (intro try_consume_buffer_inv) simp_all
      then show ?thesis
        using False op_handshake by (simp add: handle_handshake_def not_less)
    qed
  next
    case (op_heartbeat s)
    then show ?thesis
      using inv by (simp add: handle_heartbeat_def buf_inv_def closed_def)
  next
    case (op_event s pl)
    consider (now) "c_next_seq c = s" | (later) "c_next_seq c < s" | (old) "s < c_next_seq c"
      by fastforce
    then show ?thesis
    proof cases
      case now
      have "buf_inv (try_consume_buffer nil (bump_seq (c_call (consume pl) c)))"
        using srt bumped_bound [OF gt] by (intro try_consume_buffer_inv) (simp_all add: bump_seq_buf)
      then show ?thesis
        using now op_event by (simp add: handle_event_def)
    next
      case later
      then have ne: "c_next_seq c \<noteq> s" by auto
      let ?b = "insert_event s pl (c_buf c)"
      have "sorted_wrt (<) (map oe_seq ?b)"
        using srt by (rule insert_event_sorted)
      moreover have "\<forall>y\<in>set ?b. c_next_seq c < oe_seq y"
        using insert_event_lower [OF later gt] by blast
      ultimately show ?thesis
        using later ne op_event
        by (auto simp: handle_event_def Let_def buf_inv_def closed_def intro: less_imp_le)
    next
      case old
      then show ?thesis
        using inv op_event by (simp add: handle_event_ignored)
    qed
  next
    case (op_retransmit_failed s)
    consider (now) "c_next_seq c = s" | (later) "c_next_seq c < s" | (old) "s < c_next_seq c"
      by fastforce
    then show ?thesis
    proof cases
      case now
      show ?thesis
      proof (cases "nil c")
        case None
        have "buf_inv (try_consume_buffer nil (bump_seq (c_call consume_nil c)))"
          using srt bumped_bound [OF gt] by (intro try_consume_buffer_inv) (simp_all add: bump_seq_buf)
        then show ?thesis
          using now None op_retransmit_failed by (simp add: handle_retransmit_failed_def)
      next
        case (Some err)
        have "buf_inv (c_call (close err) (c_call consume_nil c))"
          using srt gt by (auto simp: buf_inv_def closed_c_call intro: less_imp_le)
        then show ?thesis
          using now Some op_retransmit_failed by (simp add: handle_retransmit_failed_def)
      qed
    next
      case later
      then have ne: "c_next_seq c \<noteq> s" by auto
      let ?b = "insert_nil s (c_buf c)"
      have "sorted_wrt (<) (map oe_seq ?b)"
        using srt by (rule insert_nil_sorted)
      moreover have "\<forall>y\<in>set ?b. c_next_seq c < oe_seq y"
        using insert_nil_lower [OF later gt] by blast
      ultimately show ?thesis
        using later ne op_retransmit_failed
        by (auto simp: handle_retransmit_failed_def buf_inv_def closed_def intro: less_imp_le)
    next
      case old
      then have "\<not> c_next_seq c < s" "c_next_seq c \<noteq> s" by auto
      then show ?thesis
        using inv op_retransmit_failed by (simp add: handle_retransmit_failed_def)
    qed
  next
    case op_tick
    then show ?thesis
      using inv by (simp add: buf_inv_def after_tick_buf after_tick_next_seq after_tick_closed)
  qed
qed

lemma admissible_run_inv:
  "buf_inv c \<Longrightarrow> admissible nil msz ops c \<Longrightarrow> buf_inv (consumer_run nil msz ops c)"
  unfolding consumer_run_def
  by (induction ops arbitrary: c) (simp_all add: consumer_step_inv)

lemma buf_inv_init: "buf_inv consumer_init"
  by (simp add: buf_inv_def consumer_init_def)

text \<open>
  Claim C3, as the code has it. After any list of \<^verbatim>\<open>handle_handshake\<close>,
  \<^verbatim>\<open>handle_heartbeat\<close>, \<^verbatim>\<open>handle_event\<close>, \<^verbatim>\<open>handle_retransmit_failed\<close> and \<^verbatim>\<open>tick\<close>
  invocations from the initial consumer, the sequence numbers of the slots of \<^verbatim>\<open>buf_\<close>
  increase strictly from front to back, hence are distinct. Every slot has
  \<open>seq \<ge> next_seq\<close> when the run is admissible: no operation is invoked after
  \<^verbatim>\<open>close\<close>, and every handshake that is accepted has an offset below all buffered
  sequence numbers.
\<close>

theorem consumer_buffer_invariant:
  "sorted_wrt (<) (map oe_seq (c_buf (consumer_run nil msz ops consumer_init)))
   \<and> distinct (map oe_seq (c_buf (consumer_run nil msz ops consumer_init)))
   \<and> (admissible nil msz ops consumer_init \<longrightarrow>
        (\<forall>x\<in>set (c_buf (consumer_run nil msz ops consumer_init)).
           c_next_seq (consumer_run nil msz ops consumer_init) \<le> oe_seq x))"
proof -
  have s: "sorted_wrt (<) (map oe_seq (c_buf (consumer_run nil msz ops consumer_init)))"
    by (rule consumer_run_sorted) (simp add: consumer_init_def)
  then have d: "distinct (map oe_seq (c_buf (consumer_run nil msz ops consumer_init)))"
    by (simp add: strict_sorted_iff)
  show ?thesis
    using s d admissible_run_inv [OF buf_inv_init, of nil msz ops] by (simp add: buf_inv_def)
qed

lemmas consumer_eval =
  consumer_run_def handle_handshake_def handle_heartbeat_def handle_event_def
  handle_retransmit_failed_def try_consume_buffer_def bump_seq_def c_call_def closed_def
  consumer_init_def lamport_timestamp_init_def nil_ok_def nil_fail_def max_size_64_def Let_def

text \<open>
  The run \<open>ops_reorder\<close> is admissible; it ends with \<open>next_seq = 2\<close> and the slots 3 and 5.
\<close>

theorem consumer_buffer_invariant_witness:
  "admissible nil_ok max_size_64 ops_reorder consumer_init
   \<and> c_next_seq (consumer_run nil_ok max_size_64 ops_reorder consumer_init) = 2
   \<and> map oe_seq (c_buf (consumer_run nil_ok max_size_64 ops_reorder consumer_init)) = [3, 5]
   \<and> list_all (\<lambda>x. c_next_seq (consumer_run nil_ok max_size_64 ops_reorder consumer_init) \<le> oe_seq x)
         (c_buf (consumer_run nil_ok max_size_64 ops_reorder consumer_init))"
proof -
  have adm: "admissible nil_ok max_size_64 ops_reorder consumer_init"
    by (simp add: ops_reorder_def consumer_eval)
  have run: "c_next_seq (consumer_run nil_ok max_size_64 ops_reorder consumer_init) = 2"
    "map oe_seq (c_buf (consumer_run nil_ok max_size_64 ops_reorder consumer_init)) = [3, 5]"
    by (simp_all add: ops_reorder_def consumer_eval)
  show ?thesis
    using consumer_buffer_invariant [of nil_ok max_size_64 ops_reorder] adm run
    by (simp add: list_all_iff)
qed

text \<open>
  Claim C3 as stated fails after a handshake that overtakes the buffer: the run
  \<open>ops_stale\<close> buffers event 3 while \<open>next_seq = 0\<close>, and the handshake with offset 5
  then sets \<open>next_seq = 6\<close>; \<^verbatim>\<open>try_consume_buffer\<close> stops at the slot 3, which stays
  in the buffer below \<^verbatim>\<open>next_seq_\<close>.
\<close>

theorem stale_slot_after_handshake:
  "c_next_seq (consumer_run nil_ok max_size_64 ops_stale consumer_init) = 6
   \<and> c_buf (consumer_run nil_ok max_size_64 ops_stale consumer_init) = [optional_event 3 (Some 7)]
   \<and> \<not> closed (consumer_run nil_ok max_size_64 ops_stale consumer_init)"
  by (simp add: ops_stale_def consumer_eval)

subsection \<open>The list of a NACK\<close>

declare generate_loop.simps [simp del]

text \<open>The list of a NACK, computed by the lambda of \<^verbatim>\<open>tick\<close>, against the interval.\<close>

lemma unat_of_nat64: "n < 2 ^ 64 \<Longrightarrow> unat (of_nat n :: 64 word) = n"
  by (simp add: unat_of_nat)

lemma unat_lt64: "unat (w :: 64 word) < 2 ^ 64"
  using unsigned_less [of w] by simp

lemma seq_range_empty: "b \<le> a \<Longrightarrow> seq_range a b = []"
  by (simp add: seq_range_def word_le_nat_alt)

lemma seq_range_head: "a < b \<Longrightarrow> seq_range a b = a # seq_range (a + 1) b"
proof -
  assume lt: "a < b"
  then have l: "unat a < unat b" by (simp add: word_less_nat_alt)
  have "a \<noteq> - 1" using lt by (metis max_word_max not_le)
  then have u: "unat (a + 1) = Suc (unat a)" by (simp add: unat_plus1)
  have "[unat a ..< unat b] = unat a # [Suc (unat a) ..< unat b]"
    using l by (simp add: upt_conv_Cons)
  then show ?thesis
    by (simp add: seq_range_def u)
qed

lemma generate_loop_range:
  "generate_loop i f acc = (max i f, acc @ seq_range i f)"
proof (induction i f acc rule: generate_loop.induct)
  case (1 i f acc)
  show ?case
  proof (cases "i < f")
    case True
    have "a \<noteq> - 1" if "a < f" for a :: "64 word" using that by (metis max_word_max not_le)
    then have "unat (i + 1) = unat i + 1" using True by (simp add: unat_plus1)
    then have "i + 1 \<le> f" using True by (simp add: inc_le)
    moreover have "i \<le> f" using True by (rule less_imp_le)
    ultimately have m: "max (i + 1) f = f" "max i f = f" by (simp_all add: max_def)
    show ?thesis
      using True 1 [OF True] m
      by (subst generate_loop.simps) (simp add: seq_range_head)
  next
    case False
    then have "f \<le> i" by simp
    then show ?thesis
      using False by (subst generate_loop.simps) (simp add: seq_range_empty max_def)
  qed
qed

lemma set_seq_range: "set (seq_range a b) = {s. a \<le> s \<and> s < b}"
proof -
  have "of_nat n \<in> {s. a \<le> s \<and> s < b}" if "unat a \<le> n" "n < unat b" for n
  proof -
    have "n < 2 ^ 64" using that(2) unat_lt64 [of b] by simp
    then have "unat (of_nat n :: 64 word) = n" by (rule unat_of_nat64)
    then show ?thesis using that by (simp add: word_le_nat_alt word_less_nat_alt)
  qed
  moreover have "s \<in> of_nat ` {unat a ..< unat b}" if "a \<le> s" "s < b" for s
  proof -
    have "unat s \<in> {unat a ..< unat b}"
      using that by (simp add: word_le_nat_alt word_less_nat_alt)
    then have "of_nat (unat s) \<in> (of_nat ` {unat a ..< unat b} :: 64 word set)"
      by (rule imageI)
    then show ?thesis by simp
  qed
  ultimately show ?thesis
    by (auto simp: seq_range_def)
qed

lemma sorted_seq_range: "sorted_wrt (<) (seq_range a b)"
proof -
  have "of_nat m < (of_nat n :: 64 word)" if "m < n" "n < unat b" for m n
  proof -
    have "n < 2 ^ 64" "m < 2 ^ 64" using that unat_lt64 [of b] by simp_all
    then show ?thesis using that(1) by (simp add: word_less_nat_alt unat_of_nat64)
  qed
  then have "sorted_wrt (\<lambda>m n. of_nat m < (of_nat n :: 64 word)) [unat a ..< unat b]"
    by (intro sorted_wrt_mono_rel [OF _ sorted_wrt_upt]) simp
  then show ?thesis
    by (simp add: seq_range_def sorted_wrt_map)
qed


lemma seq_range_split:
  assumes "a \<le> m" and "m \<le> b"
  shows "seq_range a b = seq_range a m @ seq_range m b"
proof -
  have "unat a \<le> unat m" "unat m \<le> unat b"
    using assms by (simp_all add: word_le_nat_alt)
  then have "[unat a ..< unat b] = [unat a ..< unat m] @ [unat m ..< unat b]"
    by (metis le_Suc_ex upt_add_eq_append)
  then show ?thesis
    by (simp add: seq_range_def)
qed

lemma generate_step: "generate s (i, acc) = (max i s + 1, acc @ seq_range i s)"
  by (simp add: generate_def generate_loop_range)

lemma filter_missing_step:
  assumes i_le: "i \<le> s" and s_le: "s \<le> L" and s_ne: "s \<noteq> - 1"
    and above: "\<forall>t\<in>S. s < t"
  shows "filter (\<lambda>t. t \<notin> insert s S) (seq_range i L)
         = seq_range i s @ filter (\<lambda>t. t \<notin> S) (seq_range (s + 1) L)"
proof -
  have low: "filter (\<lambda>t. t \<notin> insert s S) (seq_range i s) = seq_range i s"
  proof (rule filter_True, rule ballI)
    fix t assume "t \<in> set (seq_range i s)"
    then have "t < s" by (simp add: set_seq_range)
    then show "t \<notin> insert s S" using above by auto
  qed
  have high: "filter (\<lambda>t. t \<notin> insert s S) (seq_range (s + 1) L)
      = filter (\<lambda>t. t \<notin> S) (seq_range (s + 1) L)"
  proof (rule filter_cong [OF refl])
    fix t assume "t \<in> set (seq_range (s + 1) L)"
    then have "s + 1 \<le> t" by (simp add: set_seq_range)
    moreover have "unat (s + 1) = unat s + 1" using s_ne by (rule unat_plus1)
    ultimately have "s < t" by (simp add: word_le_nat_alt word_less_nat_alt)
    then show "(t \<notin> insert s S) = (t \<notin> S)" by auto
  qed
  have top: "filter (\<lambda>t. t \<notin> insert s S) (seq_range s L)
      = filter (\<lambda>t. t \<notin> S) (seq_range (s + 1) L)"
  proof (cases "s < L")
    case True
    then have "seq_range s L = s # seq_range (s + 1) L" by (rule seq_range_head)
    then have "filter (\<lambda>t. t \<notin> insert s S) (seq_range s L)
        = filter (\<lambda>t. t \<notin> insert s S) (seq_range (s + 1) L)"
      by simp
    then show ?thesis using high by simp
  next
    case False
    then have "s = L" using s_le by simp
    moreover have "unat (s + 1) = unat s + 1" using s_ne by (rule unat_plus1)
    ultimately have "L \<le> s + 1" by (simp add: word_le_nat_alt)
    then show ?thesis using \<open>s = L\<close> by (simp add: seq_range_empty)
  qed
  have "filter (\<lambda>t. t \<notin> insert s S) (seq_range i L)
      = filter (\<lambda>t. t \<notin> insert s S) (seq_range i s)
        @ filter (\<lambda>t. t \<notin> insert s S) (seq_range s L)"
    by (simp only: seq_range_split [OF i_le s_le] filter_append)
  then show ?thesis
    by (simp only: low top)
qed

lemma fold_generate:
  assumes "sorted_wrt (<) (map oe_seq xs)"
    and "\<forall>x\<in>set xs. i \<le> oe_seq x \<and> oe_seq x \<le> L \<and> oe_seq x \<noteq> - 1"
  shows "snd (generate L (fold (\<lambda>x. generate (oe_seq x)) xs (i, acc)))
         = acc @ filter (\<lambda>t. t \<notin> oe_seq ` set xs) (seq_range i L)"
  using assms
proof (induction xs arbitrary: i acc)
  case Nil
  show ?case by (simp add: generate_step)
next
  case (Cons x xs)
  let ?s = "oe_seq x"
  have srt: "sorted_wrt (<) (map oe_seq xs)" and above: "\<forall>y\<in>set xs. ?s < oe_seq y"
    using Cons.prems(1) by auto
  have bounds: "i \<le> ?s" "?s \<le> L" "?s \<noteq> - 1"
    using Cons.prems(2) by auto
  have nxt: "\<forall>y\<in>set xs. ?s + 1 \<le> oe_seq y \<and> oe_seq y \<le> L \<and> oe_seq y \<noteq> - 1"
    using above Cons.prems(2) by (simp add: inc_le)
  have "snd (generate L (fold (\<lambda>x. generate (oe_seq x)) (x # xs) (i, acc)))
      = snd (generate L (fold (\<lambda>x. generate (oe_seq x)) xs (?s + 1, acc @ seq_range i ?s)))"
    using bounds(1) by (simp add: generate_step max_def)
  also have "\<dots> = (acc @ seq_range i ?s) @ filter (\<lambda>t. t \<notin> oe_seq ` set xs) (seq_range (?s + 1) L)"
    by (rule Cons.IH [OF srt nxt])
  also have "\<dots> = acc @ filter (\<lambda>t. t \<notin> insert ?s (oe_seq ` set xs)) (seq_range i L)"
    using filter_missing_step [OF bounds, of "oe_seq ` set xs"] above by simp
  finally show ?case by simp
qed

lemma nack_seqs_missing:
  assumes "sorted_wrt (<) (map oe_seq (c_buf c))"
    and "\<forall>x\<in>set (c_buf c). c_next_seq c \<le> oe_seq x \<and> oe_seq x \<le> c_last_seq c \<and> oe_seq x \<noteq> - 1"
  shows "nack_seqs c = missing_seqs c"
  using fold_generate [OF assms, of "[]"] by (simp add: nack_seqs_def missing_seqs_def)

lemma tick_nack:
  assumes "sends_nack c" and "unat (c_last_seq c - c_next_seq c) \<le> msz"
  shows "tick msz c =
           Inr (c\<lparr>c_last_tick_seq := c_next_seq c, c_tick := c_tick c + 1, c_idle_ticks := 0,
                  c_out := c_out c @ [(c_next_seq c, send_c (nack (nack_seqs c)))]\<rparr>)"
proof -
  have np: "\<not> c_last_tick_seq c < c_next_seq c" and lt: "c_next_seq c < c_last_seq c"
    and tmo: "c_nack_timeout c \<le> c_idle_ticks c + 1"
    using assms(1) by (simp_all add: sends_nack_def)
  have fits: "\<not> msz < unat (c_last_seq c - c_next_seq c)"
    using assms(2) by simp
  show ?thesis
    using np lt tmo fits
    by (simp add: tick_def sends_nack_def c_tick_op_def Let_def c_call_def nack_seqs_def)
qed

lemma set_missing_seqs:
  "set (missing_seqs c)
   = {s. c_next_seq c \<le> s \<and> s < c_last_seq c \<and> s \<notin> oe_seq ` set (c_buf c)}"
  by (auto simp: missing_seqs_def set_seq_range)

lemma sorted_missing_seqs: "sorted_wrt (<) (missing_seqs c)"
  by (simp add: missing_seqs_def sorted_wrt_filter sorted_seq_range)


text \<open>
  Claim C2, as the code has it. Let \<^verbatim>\<open>tick()\<close> reach the branch that sends a NACK (no
  progress since the previous tick, \<open>next_seq < last_seq\<close>, and \<^verbatim>\<open>idle_ticks_\<close> reaches
  \<^verbatim>\<open>nack_timeout_\<close> with this tick) and let \<^verbatim>\<open>reserve(last_seq - next_seq)\<close> not throw. If
  the sequence numbers of the slots of \<^verbatim>\<open>buf_\<close> increase strictly, lie between
  \<^verbatim>\<open>next_seq_\<close> and \<^verbatim>\<open>last_seq_\<close> (both included) and are not \<open>2\<^sup>6\<^sup>4 - 1\<close>, then the
  tick returns after exactly one call on the backend, the NACK whose list holds
  exactly the sequence numbers \<open>s\<close> with \<open>next_seq \<le> s < last_seq\<close> that no slot of the
  buffer has, in strictly ascending order.
\<close>

theorem nack_completeness:
  assumes "sends_nack c" and "unat (c_last_seq c - c_next_seq c) \<le> msz"
    and "sorted_wrt (<) (map oe_seq (c_buf c))"
    and "\<forall>x\<in>set (c_buf c). c_next_seq c \<le> oe_seq x \<and> oe_seq x \<le> c_last_seq c \<and> oe_seq x \<noteq> - 1"
  shows "tick msz c =
           Inr (c\<lparr>c_last_tick_seq := c_next_seq c, c_tick := c_tick c + 1, c_idle_ticks := 0,
                  c_out := c_out c @ [(c_next_seq c, send_c (nack (missing_seqs c)))]\<rparr>)
         \<and> sorted_wrt (<) (missing_seqs c)
         \<and> set (missing_seqs c)
             = {s. c_next_seq c \<le> s \<and> s < c_last_seq c \<and> s \<notin> oe_seq ` set (c_buf c)}"
  using tick_nack [OF assms(1,2)] nack_seqs_missing [OF assms(3,4)]
    sorted_missing_seqs [of c] set_missing_seqs [of c]
  by simp

lemmas tick_eval = tick_def after_tick_def sends_nack_def c_tick_op_def send_ack_def num_ticks_def
  word_le_nat_alt word_less_nat_alt

lemma c_near_state:
  "c_near = \<lparr> c_next_seq = 1, c_last_seq = 5, c_buf = [optional_event 3 (Some 7)], c_tick = 6,
       c_last_tick_seq = 1, c_idle_ticks = 4, c_heartbeat_interval = 5,
       c_nack_timeout = 5, c_out = [(1, send_c (cumulative_ack 0))] \<rparr>"
  by (simp add: c_near_def ops_near_def consumer_eval tick_eval)

lemma missing_near: "missing_seqs c_near = [1, 2, 4]"
  by (simp add: c_near_state missing_seqs_def seq_range_def upt_conv_Cons)

text \<open>
  At \<open>c_near\<close> (\<open>next_seq = 1\<close>, \<open>last_seq = 5\<close>, event 3 buffered, four idle ticks): the
  sixth tick sends \<^verbatim>\<open>nack{[1, 2, 4]}\<close>.
\<close>

theorem nack_completeness_witness:
  "sends_nack c_near \<and> unat (c_last_seq c_near - c_next_seq c_near) \<le> max_size_64
   \<and> c_next_seq c_near = 1 \<and> c_last_seq c_near = 5
   \<and> c_buf c_near = [optional_event 3 (Some 7)]
   \<and> tick max_size_64 c_near =
       Inr (c_near\<lparr>c_last_tick_seq := 1, c_tick := 7, c_idle_ticks := 0,
              c_out := c_out c_near @ [(1, send_c (nack [1, 2, 4]))]\<rparr>)"
proof -
  have h1: "sends_nack c_near"
    by (simp add: c_near_state sends_nack_def word_le_nat_alt word_less_nat_alt)
  have h2: "unat (c_last_seq c_near - c_next_seq c_near) \<le> max_size_64"
    by (simp add: c_near_state max_size_64_def)
  have h3: "sorted_wrt (<) (map oe_seq (c_buf c_near))"
    by (simp add: c_near_state)
  have h4: "\<forall>x\<in>set (c_buf c_near).
      c_next_seq c_near \<le> oe_seq x \<and> oe_seq x \<le> c_last_seq c_near \<and> oe_seq x \<noteq> - 1"
    by (simp add: c_near_state)
  show ?thesis
    using nack_completeness [OF h1 h2 h3 h4] h1 h2 missing_near by (simp add: c_near_state)
qed

lemma c_far_state:
  "c_far = \<lparr> c_next_seq = 1, c_last_seq = 3, c_buf = [optional_event 5 None], c_tick = 6,
       c_last_tick_seq = 1, c_idle_ticks = 4, c_heartbeat_interval = 5,
       c_nack_timeout = 5, c_out = [(1, send_c (cumulative_ack 0))] \<rparr>"
  by (simp add: c_far_def ops_far_def consumer_eval tick_eval)

text \<open>
  Claim C2 as stated fails when a slot of the buffer lies beyond \<^verbatim>\<open>last_seq_\<close>. At
  \<open>c_far\<close> (\<open>next_seq = 1\<close>, \<open>last_seq = 3\<close>, an empty slot 5 from
  \<^verbatim>\<open>handle_retransmit_failed(5)\<close>, four idle ticks) the sixth tick sends
  \<^verbatim>\<open>nack{[1, 2, 3, 4]}\<close>: the lambda counts up to the slot 5, past \<open>last_seq\<close>, where
  the interval from 1 to 3 holds 1 and 2 only.
\<close>

theorem nack_beyond_last_seq:
  "c_next_seq c_far = 1 \<and> c_last_seq c_far = 3 \<and> c_buf c_far = [optional_event 5 None]
   \<and> sends_nack c_far
   \<and> tick max_size_64 c_far =
       Inr (c_far\<lparr>c_last_tick_seq := 1, c_tick := 7, c_idle_ticks := 0,
              c_out := c_out c_far @ [(1, send_c (nack [1, 2, 3, 4]))]\<rparr>)"
  by (simp add: c_far_state tick_eval max_size_64_def c_call_def nack_seqs_def generate_def
      generate_loop.simps)

section \<open>Properties of the producer\<close>

subsection \<open>Re-handshake\<close>

lemma find_first:
  assumes "\<forall>y\<in>set pre. \<not> P y" and "P x"
  shows "find P (pre @ x # post) = Some x"
  using assms by (induction pre) auto

text \<open>
  Claim C9. For every producer state and every handle \<open>h\<close> that has a path, let \<open>x\<close> be the
  first entry of \<^verbatim>\<open>paths_\<close> with the handle \<open>h\<close> (after \<^verbatim>\<open>add\<close>, the only one). Then
  \<^verbatim>\<open>handle_nack(h, seqs)\<close> with a list \<open>seqs\<close> that starts with 0 makes exactly one call
  on the backend, the unicast to \<open>h\<close> of a handshake with \<open>first_seq = offset x\<close> and
  the heartbeat interval of the producer, and leaves every field of the producer as it
  is: no ACK is processed, nothing is retransmitted.
\<close>

theorem nack_zero_rehandshake:
  assumes "p_paths p = pre @ x # post" and "hdl x = h" and "\<forall>y\<in>set pre. hdl y \<noteq> h"
    and "seqs = 0 # rest"
  shows "handle_nack h seqs p =
           p\<lparr>p_out := p_out p @ [send_p h (handshake (offset x) (p_heartbeat_interval p))]\<rparr>"
proof -
  have "find (\<lambda>y. hdl y = h) (pre @ x # post) = Some x"
    using assms(2,3) by (intro find_first) simp_all
  then have "find_path h p = Some x"
    by (simp add: find_path_def assms(1))
  then show ?thesis
    using assms(4) by (simp add: handle_nack_def p_call_def)
qed

lemma p_two_state:
  "p_two = \<lparr> p_seq = 2, p_tick = 1, p_last_broadcast = 1,
       p_buf = [event 1 10, event 2 11],
       p_paths = [\<lparr>hdl = 1, offset = 0, acked = 0, first_acked = 1, last_acked = 1\<rparr>,
                  \<lparr>hdl = 2, offset = 2, acked = 2, first_acked = 1, last_acked = 1\<rparr>],
       p_heartbeat_interval = 5,
       p_out = [send_p 1 (handshake 0 5), broadcast (event_msg (event 1 10)),
                broadcast (event_msg (event 2 11)), send_p 2 (handshake 2 5)] \<rparr>"
  by (simp add: p_two_def add_def produce_def producer_init_def find_path_def p_call_def
      lamport_timestamp_init_def Let_def)

text \<open>
  At \<open>p_two\<close> (sequence number 2; consumer 1 was added at 0, consumer 2 at 2): the NACK
  \<open>[0, 1]\<close> of consumer 1 is answered with \<^verbatim>\<open>handshake{0, 5}\<close>, the offset of its path and
  not the current sequence number, and the NACK \<open>[0]\<close> of consumer 2 with
  \<^verbatim>\<open>handshake{2, 5}\<close>; the producer keeps its sequence number, buffer and paths.
\<close>

theorem nack_zero_rehandshake_witness:
  "p_seq p_two = 2
   \<and> p_paths p_two = [\<lparr>hdl = 1, offset = 0, acked = 0, first_acked = 1, last_acked = 1\<rparr>,
                      \<lparr>hdl = 2, offset = 2, acked = 2, first_acked = 1, last_acked = 1\<rparr>]
   \<and> handle_nack 1 [0, 1] p_two = p_two\<lparr>p_out := p_out p_two @ [send_p 1 (handshake 0 5)]\<rparr>
   \<and> handle_nack 2 [0] p_two = p_two\<lparr>p_out := p_out p_two @ [send_p 2 (handshake 2 5)]\<rparr>"
proof -
  let ?x1 = "\<lparr>hdl = 1 :: nat, offset = 0, acked = 0, first_acked = 1, last_acked = 1\<rparr>"
  let ?x2 = "\<lparr>hdl = 2 :: nat, offset = 2, acked = 2, first_acked = 1, last_acked = 1\<rparr>"
  have a1: "p_paths p_two = [] @ ?x1 # [?x2]" and a2: "p_paths p_two = [?x1] @ ?x2 # []"
    by (simp_all add: p_two_state)
  have b1: "hdl ?x1 = 1" and b2: "hdl ?x2 = 2"
    by simp_all
  have c1: "\<forall>y\<in>set []. hdl y \<noteq> (1 :: nat)" and c2: "\<forall>y\<in>set [?x1]. hdl y \<noteq> 2"
    by simp_all
  have hb: "p_heartbeat_interval p_two = 5" and sq: "p_seq p_two = 2"
    by (simp_all add: p_two_state)
  show ?thesis
    using nack_zero_rehandshake [OF a1 b1 c1, of "[0, 1]" "[1]"]
      nack_zero_rehandshake [OF a2 b2 c2, of "[0]" "[]"] a1 hb sq
    by simp
qed

subsection \<open>Cumulative ACKs\<close>

lemma ack_rel_refl: "ack_rel h s x x"
  by (simp add: ack_rel_def)

lemma ack_loop_rel: "list_all2 (ack_rel h s) xs (fst (ack_loop h s t xs a))"
proof (induction xs arbitrary: a)
  case Nil
  show ?case by simp
next
  case (Cons x xs)
  have same: "list_all2 (ack_rel h s) xs xs"
    by (simp add: list_all2_same ack_rel_refl)
  show ?case
  proof (cases "hdl x = h")
    case True
    consider (past) "acked x > s" | (old) "acked x = s" | (new) "acked x < s"
      by fastforce
    then show ?thesis
    proof cases
      case past
      then have "fst (ack_loop h s t (x # xs) a) = x # xs"
        using True by simp
      then show ?thesis
        using same by (simp add: ack_rel_refl)
    next
      case old
      then have "fst (ack_loop h s t (x # xs) a) = x\<lparr>last_acked := t\<rparr> # xs"
        using True by simp
      moreover have "ack_rel h s x (x\<lparr>last_acked := t\<rparr>)"
        by (simp add: ack_rel_def)
      ultimately show ?thesis
        using same by simp
    next
      case new
      then have ng: "\<not> acked x > s" and ne: "acked x \<noteq> s"
        by auto
      have "fst (ack_loop h s t (x # xs) a)
          = x\<lparr>acked := s, first_acked := t, last_acked := t\<rparr> # fst (ack_loop h s t xs a)"
        using True ng ne by (simp split: prod.splits)
      moreover have "ack_rel h s x (x\<lparr>acked := s, first_acked := t, last_acked := t\<rparr>)"
        using True new by (simp add: ack_rel_def)
      ultimately show ?thesis
        using Cons.IH [of a] by simp
    qed
  next
    case False
    then have "fst (ack_loop h s t (x # xs) a) = x # fst (ack_loop h s t xs (min (acked x) a))"
      by (simp split: prod.splits)
    then show ?thesis
      using Cons.IH [of "min (acked x) a"] by (simp add: ack_rel_refl)
  qed
qed

lemma ack_loop_Some:
  assumes "ack_loop h s t xs a = (ys, Some r)"
  shows "r \<le> a \<and> (\<forall>x\<in>set xs. hdl x \<noteq> h \<longrightarrow> r \<le> acked x)
         \<and> (r = a \<or> (\<exists>x\<in>set xs. hdl x \<noteq> h \<and> r = acked x))
         \<and> (\<forall>y\<in>set ys. hdl y = h \<longrightarrow> acked y = s)
         \<and> (\<forall>x\<in>set xs. hdl x \<noteq> h \<longrightarrow> x \<in> set ys)"
  using assms
proof (induction xs arbitrary: a ys)
  case Nil
  then show ?case by simp
next
  case (Cons x xs)
  show ?case
  proof (cases "hdl x = h")
    case True
    then have new: "\<not> acked x > s" "acked x \<noteq> s"
      using Cons.prems by (auto split: if_splits)
    obtain zs where zs: "ack_loop h s t xs a = (zs, Some r)"
      and ys: "ys = x\<lparr>acked := s, first_acked := t, last_acked := t\<rparr> # zs"
      using Cons.prems True new by (auto split: prod.splits)
    show ?thesis
      using Cons.IH [OF zs] True ys by auto
  next
    case False
    obtain zs where zs: "ack_loop h s t xs (min (acked x) a) = (zs, Some r)"
      and ys: "ys = x # zs"
      using Cons.prems False by (auto split: prod.splits)
    have ih: "r \<le> min (acked x) a \<and> (\<forall>x\<in>set xs. hdl x \<noteq> h \<longrightarrow> r \<le> acked x)
         \<and> (r = min (acked x) a \<or> (\<exists>x\<in>set xs. hdl x \<noteq> h \<and> r = acked x))
         \<and> (\<forall>y\<in>set zs. hdl y = h \<longrightarrow> acked y = s)
         \<and> (\<forall>x\<in>set xs. hdl x \<noteq> h \<longrightarrow> x \<in> set zs)"
      by (rule Cons.IH [OF zs])
    then have "r \<le> a" "r \<le> acked x"
      by simp_all
    moreover have "r = a \<or> (\<exists>x'\<in>set (x # xs). hdl x' \<noteq> h \<and> r = acked x')"
      using ih False by (auto simp: min_def split: if_splits)
    ultimately show ?thesis
      using ih False ys by auto
  qed
qed

lemma ack_loop_unknown:
  "h \<notin> hdl ` set xs \<Longrightarrow> \<exists>r. ack_loop h s t xs a = (xs, Some r)"
proof (induction xs arbitrary: a)
  case Nil
  show ?case by simp
next
  case (Cons x xs)
  have ne: "hdl x \<noteq> h" and rest: "h \<notin> hdl ` set xs"
    using Cons.prems by auto
  obtain r where "ack_loop h s t xs (min (acked x) a) = (xs, Some r)"
    using Cons.IH [OF rest, of "min (acked x) a"] by auto
  then show ?case
    using ne by simp
qed

lemma ack_loop_None:
  assumes "ack_loop h s t xs a = (ys, None)" and "distinct (map hdl xs)"
  shows "map acked ys = map acked xs \<and> (\<exists>x\<in>set xs. hdl x = h \<and> s \<le> acked x)"
  using assms
proof (induction xs arbitrary: a ys)
  case Nil
  then show ?case by simp
next
  case (Cons x xs)
  show ?case
  proof (cases "hdl x = h")
    case True
    then have "h \<notin> hdl ` set xs"
      using Cons.prems(2) by auto
    then have "\<exists>r. ack_loop h s t xs a = (xs, Some r)"
      by (rule ack_loop_unknown)
    then obtain r where r: "ack_loop h s t xs a = (xs, Some r)" ..
    consider (past) "acked x > s" | (old) "acked x = s" | (new) "acked x < s"
      by fastforce
    then show ?thesis
    proof cases
      case past
      then have "ys = x # xs"
        using Cons.prems(1) True by simp
      moreover have "s \<le> acked x"
        using past by (rule less_imp_le)
      ultimately show ?thesis
        using True by simp
    next
      case old
      then have "ys = x\<lparr>last_acked := t\<rparr> # xs"
        using Cons.prems(1) True by simp
      then show ?thesis
        using True old by simp
    next
      case new
      then have "\<not> acked x > s" "acked x \<noteq> s"
        by auto
      then have False
        using Cons.prems(1) True r by simp
      then show ?thesis ..
    qed
  next
    case False
    obtain zs where zs: "ack_loop h s t xs (min (acked x) a) = (zs, None)" and ys: "ys = x # zs"
      using Cons.prems(1) False by (auto split: prod.splits)
    have d: "distinct (map hdl xs)"
      using Cons.prems(2) by simp
    have "map acked zs = map acked xs \<and> (\<exists>x\<in>set xs. hdl x = h \<and> s \<le> acked x)"
      by (rule Cons.IH [OF zs d])
    then show ?thesis
      using ys by simp
  qed
qed

subsection \<open>Heartbeats\<close>

lemma unat_ucast16: "unat (ucast (w :: 16 word) :: 64 word) = unat w"
proof -
  have "unat w < 2 ^ 16"
    using unsigned_less [of w] by simp
  then have "unat w < 2 ^ 64"
    by simp
  then show ?thesis
    by (simp add: unsigned_ucast_eq take_bit_nat_eq_self)
qed

lemma p_tick_op_fire:
  assumes "p_heartbeat_interval p > 0"
    and "p_tick p - p_last_broadcast p = of_nat d" and "Suc d = unat (p_heartbeat_interval p)"
  shows "p_tick_op p = p\<lparr>p_tick := p_tick p + 1, p_last_broadcast := p_tick p + 1,
            p_out := p_out p @ [broadcast (heartbeat (p_seq p))]\<rparr>"
proof -
  have "ucast (p_heartbeat_interval p) = (of_nat (unat (p_heartbeat_interval p)) :: 64 word)"
    by simp
  also have "\<dots> = of_nat d + 1"
    using assms(3) [symmetric] by simp
  finally have "p_last_broadcast p + ucast (p_heartbeat_interval p) = p_tick p + 1"
    using assms(2) by (simp add: algebra_simps)
  then show ?thesis
    using assms(1) by (simp add: p_tick_op_def Let_def p_call_def)
qed

lemma p_tick_op_quiet:
  assumes "p_tick p - p_last_broadcast p = of_nat d" and "Suc d < unat (p_heartbeat_interval p)"
  shows "p_tick_op p = p\<lparr>p_tick := p_tick p + 1\<rparr>"
proof -
  let ?k = "unat (p_heartbeat_interval p)"
  have k: "?k < 2 ^ 16"
    using unsigned_less [of "p_heartbeat_interval p"] by simp
  have "p_last_broadcast p + ucast (p_heartbeat_interval p) \<noteq> p_tick p + 1"
  proof
    assume "p_last_broadcast p + ucast (p_heartbeat_interval p) = p_tick p + 1"
    then have "(ucast (p_heartbeat_interval p) :: 64 word) = (p_tick p - p_last_broadcast p) + 1"
      by (simp add: algebra_simps)
    then have "(of_nat ?k :: 64 word) = of_nat (Suc d)"
      using assms(1) by simp
    then have "unat (of_nat ?k :: 64 word) = unat (of_nat (Suc d) :: 64 word)"
      by simp
    moreover have "unat (of_nat ?k :: 64 word) = ?k"
      by (simp add: unat_ucast16)
    moreover have "unat (of_nat (Suc d) :: 64 word) = Suc d"
    proof -
      have "Suc d < 2 ^ LENGTH(64)"
        using k assms(2) by simp
      then have "Suc d mod 2 ^ LENGTH(64) = Suc d"
        by (rule mod_less)
      then show ?thesis
        by (simp only: unat_of_nat)
    qed
    ultimately show False
      using assms(2) by simp
  qed
  then show ?thesis
    by (simp add: p_tick_op_def Let_def)
qed


text \<open>
  Claim C6, as the code has it. Let the producer have \<open>heartbeat_interval = k > 0\<close> and let
  its last broadcast be \<open>d < k\<close> ticks old (\<open>tick - last_broadcast = d\<close>; so it is in
  every state that \<^verbatim>\<open>produce\<close>, \<^verbatim>\<open>add\<close>, \<^verbatim>\<open>handle_ack\<close>, \<^verbatim>\<open>handle_nack\<close> and \<^verbatim>\<open>tick\<close>
  reach with that interval). Then \<open>n\<close> consecutive \<^verbatim>\<open>tick()\<close> invocations broadcast exactly
  \<open>(d + n) div k\<close> heartbeats, one whenever \<open>k\<close> ticks have passed since the last
  broadcast (\<open>n div k\<close> of them when the run starts right after a broadcast), each
  carrying the current \<^verbatim>\<open>seq_\<close>, and change nothing else but \<^verbatim>\<open>tick_\<close> and
  \<^verbatim>\<open>last_broadcast_\<close>.
\<close>

theorem heartbeat_cadence:
  assumes "p_heartbeat_interval p > 0"
    and "p_tick p - p_last_broadcast p = of_nat d" and "d < unat (p_heartbeat_interval p)"
  shows "p_ticks n p =
           p\<lparr>p_tick := p_tick p + of_nat n,
             p_last_broadcast := p_tick p + of_nat n - of_nat ((d + n) mod unat (p_heartbeat_interval p)),
             p_out := p_out p @ replicate ((d + n) div unat (p_heartbeat_interval p))
                                   (broadcast (heartbeat (p_seq p)))\<rparr>"
  using assms
proof (induction n arbitrary: p d)
  case 0
  have "p_tick p - of_nat d = p_last_broadcast p"
    using "0.prems"(2) by (simp add: algebra_simps)
  then show ?case
    using "0.prems"(3) by simp
next
  case (Suc n)
  let ?k = "unat (p_heartbeat_interval p)"
  show ?case
  proof (cases "Suc d = ?k")
    case True
    let ?p1 = "p\<lparr>p_tick := p_tick p + 1, p_last_broadcast := p_tick p + 1,
            p_out := p_out p @ [broadcast (heartbeat (p_seq p))]\<rparr>"
    have step: "p_tick_op p = ?p1"
      using Suc.prems(1,2) True by (rule p_tick_op_fire)
    have d0: "p_tick ?p1 - p_last_broadcast ?p1 = of_nat 0"
      by simp
    have k0: "0 < unat (p_heartbeat_interval ?p1)"
      using True by simp
    have hb: "p_heartbeat_interval ?p1 > 0"
      using Suc.prems(1) by simp
    have kpos: "?k \<noteq> 0"
      using True by simp
    have sum: "d + Suc n = ?k + n"
      using True by simp
    have dv: "(d + Suc n) div ?k = Suc (n div ?k)"
      unfolding sum using div_add_self1 [OF kpos, of n] by simp
    have md: "(d + Suc n) mod ?k = n mod ?k"
      unfolding sum by (simp only: mod_add_self1)
    have dv': "Suc (d + n) div ?k = Suc (n div ?k)" and md': "Suc (d + n) mod ?k = n mod ?k"
      using dv md by simp_all
    show ?thesis
      using Suc.IH [OF hb d0 k0] by (simp add: step dv' md' algebra_simps)
  next
    case False
    then have lt: "Suc d < ?k"
      using Suc.prems(3) by simp
    let ?p1 = "p\<lparr>p_tick := p_tick p + 1\<rparr>"
    have step: "p_tick_op p = ?p1"
      using Suc.prems(2) lt by (rule p_tick_op_quiet)
    have d1: "p_tick ?p1 - p_last_broadcast ?p1 = of_nat (Suc d)"
      using Suc.prems(2) by (simp add: algebra_simps)
    have k1: "Suc d < unat (p_heartbeat_interval ?p1)"
      using lt by simp
    have hb: "p_heartbeat_interval ?p1 > 0"
      using Suc.prems(1) by simp
    show ?thesis
      using Suc.IH [OF hb d1 k1] by (simp add: step algebra_simps)
  qed
qed

lemmas producer_eval =
  p_tick_op_def p_call_def produce_def add_def find_path_def producer_init_def
  set_heartbeat_interval_def lamport_timestamp_init_def Let_def

lemma p_ticks_numeral: "p_ticks (numeral n) p = p_ticks (pred_numeral n) (p_tick_op p)"
  by (simp add: numeral_eq_Suc)

lemma p_ticks_1: "p_ticks 1 p = p_tick_op p"
  by simp

lemma p_two3_state:
  "p_two3 = p_two\<lparr>p_tick := 4\<rparr>"
  by (simp add: p_two3_def p_two_state p_ticks_numeral producer_eval)

text \<open>
  At \<open>p_two3\<close> (interval 5, sequence number 2, last broadcast 3 ticks ago): the second
  and the seventh of seven ticks broadcast \<^verbatim>\<open>heartbeat{2}\<close>.
\<close>

theorem heartbeat_cadence_witness:
  "p_heartbeat_interval p_two3 = 5 \<and> p_seq p_two3 = 2
   \<and> p_tick p_two3 - p_last_broadcast p_two3 = 3
   \<and> p_out (p_ticks 1 p_two3) = p_out p_two3
   \<and> p_out (p_ticks 2 p_two3) = p_out p_two3 @ [broadcast (heartbeat 2)]
   \<and> p_out (p_ticks 6 p_two3) = p_out p_two3 @ [broadcast (heartbeat 2)]
   \<and> p_out (p_ticks 7 p_two3)
       = p_out p_two3 @ [broadcast (heartbeat 2), broadcast (heartbeat 2)]"
proof -
  have hb: "p_heartbeat_interval p_two3 > 0" and k: "p_heartbeat_interval p_two3 = 5"
    and sq: "p_seq p_two3 = 2"
    by (simp_all add: p_two3_state p_two_state)
  have d: "p_tick p_two3 - p_last_broadcast p_two3 = of_nat 3"
    by (simp add: p_two3_state p_two_state)
  have u: "unat (p_heartbeat_interval p_two3) = 5"
    by (simp add: k)
  have lt: "3 < unat (p_heartbeat_interval p_two3)"
    by (simp add: u)
  have rep2: "replicate 2 x = [x, x]" for x :: "(nat, nat) producer_call"
    by (simp add: numeral_2_eq_2)
  have c1: "p_out (p_ticks 1 p_two3) = p_out p_two3"
    using heartbeat_cadence [OF hb d lt, of 1] by (simp add: u)
  have c2: "p_out (p_ticks 2 p_two3) = p_out p_two3 @ [broadcast (heartbeat 2)]"
    using heartbeat_cadence [OF hb d lt, of 2] by (simp add: u sq)
  have c6: "p_out (p_ticks 6 p_two3) = p_out p_two3 @ [broadcast (heartbeat 2)]"
    using heartbeat_cadence [OF hb d lt, of 6] by (simp add: u sq)
  have c7: "p_out (p_ticks 7 p_two3)
      = p_out p_two3 @ [broadcast (heartbeat 2), broadcast (heartbeat 2)]"
    using heartbeat_cadence [OF hb d lt, of 7] by (simp add: u sq rep2)
  show ?thesis
    using c1 c2 c6 c7 d k sq by simp
qed

text \<open>
  Claim C6 as stated fails in a state whose last broadcast is older than the interval.
  \<open>p_late\<close> is the initial producer after three ticks and \<^verbatim>\<open>heartbeat_interval(2)\<close>:
  \<open>tick = 4\<close>, \<open>last_broadcast = 1\<close>, interval 2. The test
  \<open>last_broadcast + heartbeat_interval = tick\<close> compares 3 with 5, 6, 7, ...: six
  further ticks broadcast nothing.
\<close>

theorem no_heartbeat_after_late_start:
  "p_heartbeat_interval p_late = 2 \<and> p_tick p_late = 4 \<and> p_last_broadcast p_late = 1
   \<and> p_out p_late = [] \<and> p_out (p_ticks 6 p_late) = []"
  by (simp add: p_late_def p_three_def p_ticks_numeral producer_eval)

end
